theory Spec2Isabelle
  imports
    Complex_Main
    "HOL-Library.Char_ord"
    "HOL-Library.List_Lexorder"
    "HOL-Library.Sublist"
    "HOL-Library.Multiset"
begin

section \<open>Text\<close>

text \<open>
  The scheduler works on Python \<open>str\<close> values. A string is modelled as a \<^typ>\<open>string\<close>,
  the list of the bytes of its UTF-8 encoding. The alphabet of the model is ASCII and the
  en dash (U+2013, the only character beyond ASCII that the source names): on such text
  \<open>strip\<close>, \<open>upper\<close>, \<open>lower\<close>, \<open>in\<close>, \<open>re.split\<close> and \<open>re.search\<close> act on the bytes as
  they act on the code points, and the byte order of two strings is their code point
  order. Python's Unicode tables (digits, spaces and case mappings beyond ASCII) are not
  part of the model.
\<close>

definition isspace :: "char \<Rightarrow> bool" where
  \<comment> \<open>\<open>str.isspace\<close> on one ASCII character; the class \<open>\s\<close> of \<open>re\<close> is the same set.\<close>
  "isspace c = (c \<in> set [CHR 0x09, CHR 0x0A, CHR 0x0B, CHR 0x0C, CHR 0x0D,
                           CHR 0x1C, CHR 0x1D, CHR 0x1E, CHR 0x1F, CHR 0x20])"

definition isdigit :: "char \<Rightarrow> bool" where
  \<comment> \<open>The class \<open>\d\<close> on ASCII.\<close>
  "isdigit c = (c \<in> set ''0123456789'')"

definition upper_char :: "char \<Rightarrow> char" where
  "upper_char c =
     (case map_of (zip ''abcdefghijklmnopqrstuvwxyz'' ''ABCDEFGHIJKLMNOPQRSTUVWXYZ'') c of
        Some u \<Rightarrow> u | None \<Rightarrow> c)"

definition lower_char :: "char \<Rightarrow> char" where
  "lower_char c =
     (case map_of (zip ''ABCDEFGHIJKLMNOPQRSTUVWXYZ'' ''abcdefghijklmnopqrstuvwxyz'') c of
        Some l \<Rightarrow> l | None \<Rightarrow> c)"

definition upper :: "string \<Rightarrow> string" where
  "upper s = map upper_char s"

definition lower :: "string \<Rightarrow> string" where
  "lower s = map lower_char s"

definition strip :: "string \<Rightarrow> string" where
  \<comment> \<open>\<open>str.strip()\<close>: leading and trailing white space removed.\<close>
  "strip s = rev (dropWhile isspace (rev (dropWhile isspace s)))"

fun contains_str :: "string \<Rightarrow> string \<Rightarrow> bool" where
  \<comment> \<open>\<open>contains_str k s\<close> is Python's \<open>k in s\<close> on strings.\<close>
  "contains_str k [] = (k = [])"
| "contains_str k (c # cs) = (prefix k (c # cs) \<or> contains_str k cs)"

definition digit_val :: "char \<Rightarrow> int" where
  "digit_val c = int (of_char c) - 48"

definition py_int :: "string \<Rightarrow> int" where
  \<comment> \<open>\<open>int(ds)\<close> on a string of decimal digits. Python integers are unbounded; the
      limit an interpreter may set on the number of digits of a conversion is left out.\<close>
  "py_int ds = foldl (\<lambda>a c. 10 * a + digit_val c) 0 ds"

fun digit_char :: "nat \<Rightarrow> char" where
  "digit_char n = (''0123456789'' ! (n mod 10))"

fun str_nat :: "nat \<Rightarrow> string" where
  \<comment> \<open>The decimal numeral of a natural number, as \<open>str\<close> and an f-string print it.\<close>
  "str_nat n = (if n < 10 then [digit_char n] else str_nat (n div 10) @ [digit_char n])"

definition str_int :: "int \<Rightarrow> string" where
  "str_int i = (if i < 0 then CHR ''-'' # str_nat (nat (- i)) else str_nat (nat i))"

subsection \<open>Regular expressions\<close>

text \<open>
  The fragment of Python's \<open>re\<close> that the source uses, with the semantics of its
  backtracking matcher: \<open>rmatch r s g\<close> lists every way \<open>r\<close> matches a prefix of \<open>s\<close>, as
  the rest of the input and the groups captured, in the order in which the matcher tries
  them (a greedy repetition tries its longest run first, an alternative its left branch
  first, an optional part its presence first). The match \<open>re\<close> reports is the head of the
  list.
\<close>

datatype cclass = Digit | Space

fun in_class :: "cclass \<Rightarrow> char \<Rightarrow> bool" where
  "in_class Digit c = isdigit c"
| "in_class Space c = isspace c"

datatype regex =
    Lit string
  | Plus cclass
  | Star cclass
  | Seq regex regex
  | Alt regex regex
  | Opt regex
  | Group nat regex

type_synonym groups = "nat \<rightharpoonup> string"

fun rmatch :: "regex \<Rightarrow> string \<Rightarrow> groups \<Rightarrow> (string \<times> groups) list" where
  "rmatch (Lit l) s g = (if prefix l s then [(drop (length l) s, g)] else [])"
| "rmatch (Plus c) s g =
     map (\<lambda>n. (drop n s, g)) (rev [1 ..< Suc (length (takeWhile (in_class c) s))])"
| "rmatch (Star c) s g =
     map (\<lambda>n. (drop n s, g)) (rev [0 ..< Suc (length (takeWhile (in_class c) s))])"
| "rmatch (Seq a b) s g = concat (map (\<lambda>(s', g'). rmatch b s' g') (rmatch a s g))"
| "rmatch (Alt a b) s g = rmatch a s g @ rmatch b s g"
| "rmatch (Opt a) s g = rmatch a s g @ [(s, g)]"
| "rmatch (Group n a) s g =
     map (\<lambda>(s', g'). (s', g'(n \<mapsto> take (length s - length s') s))) (rmatch a s g)"

fun re_search :: "regex \<Rightarrow> string \<Rightarrow> groups option" where
  \<comment> \<open>\<open>re.search\<close>: the match at the leftmost position that has one.\<close>
  "re_search r [] = (case rmatch r [] Map.empty of [] \<Rightarrow> None | (s', g) # _ \<Rightarrow> Some g)"
| "re_search r (c # cs) =
     (case rmatch r (c # cs) Map.empty of [] \<Rightarrow> re_search r cs | (s', g) # _ \<Rightarrow> Some g)"

fun re_split :: "string \<Rightarrow> string list" where
  \<comment> \<open>\<open>re.split('[,;]', s)\<close>\<close>
  "re_split [] = [[]]"
| "re_split (c # cs) =
     (if c = CHR '','' \<or> c = CHR '';'' then [] # re_split cs
      else (case re_split cs of [] \<Rightarrow> [[c]] | p # ps \<Rightarrow> (c # p) # ps))"

section \<open>The scheduler\<close>

subsection \<open>\<open>parse_time_slot\<close>\<close>

type_synonym slot = "int \<times> int"

datatype pyval = Str string | NotStr

definition unavailable_keywords :: "string list" where
  "unavailable_keywords = [''NA'', ''N/A'', ''ON LEAVE'', ''LEAVE'', ''UNAVAILABLE'', ''OFF'']"

definition en_dash :: string where
  "en_dash = [CHR 0xE2, CHR 0x80, CHR 0x93]"

definition am_pm :: regex where
  "am_pm = Alt (Lit ''AM'') (Lit ''PM'')"

definition time_range_pattern :: regex where
  \<comment> \<open>\<open>(\d+)\s*(AM|PM)?\s*[-D]\s*(\d+)\s*(AM|PM)\<close>, where \<open>D\<close> stands for the en dash: the
      class of one character, the hyphen or the en dash, is the choice of two literals.\<close>
  "time_range_pattern =
     Seq (Group 1 (Plus Digit))
    (Seq (Star Space)
    (Seq (Opt (Group 2 am_pm))
    (Seq (Star Space)
    (Seq (Alt (Lit ''-'') (Lit en_dash))
    (Seq (Star Space)
    (Seq (Group 3 (Plus Digit))
    (Seq (Star Space)
         (Group 4 am_pm))))))))"

definition slot_of_match :: "groups \<Rightarrow> slot" where
  \<comment> \<open>The body of \<open>if match:\<close>. Groups 1, 3 and 4 take part in every match of the pattern
      (lemma \<open>pattern_groups\<close> below), so \<open>the\<close> reads a group that is there.\<close>
  "slot_of_match g =
     (let start_time = py_int (the (g 1));
          start_period = g 2;
          end_time = py_int (the (g 3));
          end_period = the (g 4);
          end_time = (if end_period = ''PM'' \<and> end_time \<noteq> 12 then end_time + 12
                      else if end_period = ''AM'' \<and> end_time = 12 then 0
                      else end_time);
          start_time =
            (case start_period of
               Some sp \<Rightarrow>
                 (if sp = ''PM'' \<and> start_time \<noteq> 12 then start_time + 12
                  else if sp = ''AM'' \<and> start_time = 12 then 0
                  else start_time)
             | None \<Rightarrow>
                 (if end_period = ''PM'' \<and> start_time < 12 then start_time + 12
                  else start_time))
      in (start_time, end_time))"

definition part_slots :: "string \<Rightarrow> slot list" where
  \<comment> \<open>One round of \<open>for part in time_parts\<close>: the slots it appends.\<close>
  "part_slots part0 =
     (let part = strip part0 in
      if part = [] then []
      else (case re_search time_range_pattern part of
              Some g \<Rightarrow> [slot_of_match g]
            | None \<Rightarrow> []))"

fun parse_time_slot :: "pyval \<Rightarrow> slot list" where
  "parse_time_slot NotStr = []"
| "parse_time_slot (Str time_str0) =
     (let time_str = upper (strip time_str0) in
      if list_ex (\<lambda>keyword. contains_str keyword time_str) unavailable_keywords then []
      else foldl (\<lambda>slots part. slots @ part_slots part) [] (re_split time_str))"

subsection \<open>Python dictionaries\<close>

text \<open>
  A \<open>dict\<close> is the list of its items in insertion order. \<open>dict_set k v d\<close> is \<open>d[k] = v\<close>:
  a key already present keeps its place and takes the new value, a new key goes last.
  \<open>map_of d k\<close> is the lookup \<open>d[k]\<close> where \<open>k in d\<close>, \<open>map fst d\<close> is \<open>d.keys()\<close>,
  \<open>map snd d\<close> is \<open>d.values()\<close> and \<open>length d\<close> is \<open>len(d)\<close>.
\<close>

fun dict_set :: "'k \<Rightarrow> 'v \<Rightarrow> ('k \<times> 'v) list \<Rightarrow> ('k \<times> 'v) list" where
  "dict_set k v [] = [(k, v)]"
| "dict_set k v ((k', v') # d) = (if k' = k then (k, v) # d else (k', v') # dict_set k v d)"

type_synonym schedule = "(string \<times> slot list) list"
type_synonym index = "(string \<times> schedule) list"

subsection \<open>\<open>parse_availability\<close>\<close>

text \<open>
  The \<open>DataFrame\<close>: its column labels, and its rows, each the cell of the first column and
  the cells of the other columns in column order. A cell is the text \<open>str\<close> makes of it
  (\<open>str(row[label])\<close> in the source). The column labels are distinct.
\<close>

record dataframe =
  columns :: "string list"
  rows :: "(string \<times> string list) list"

record scheduler =
  availability_data :: "dataframe option"
  parsed_schedules :: index

datatype py_error = IndexError

definition row_schedule :: "string list \<Rightarrow> string list \<Rightarrow> schedule" where
  \<comment> \<open>\<open>for date_col in date_columns\<close>, from \<open>member_schedule = {}\<close>\<close>
  "row_schedule date_columns cells =
     foldl (\<lambda>member_schedule (date_col, availability_str).
              (let time_slots = parse_time_slot (Str availability_str) in
               if time_slots \<noteq> [] then dict_set date_col time_slots member_schedule
               else dict_set date_col [] member_schedule))
       [] (zip date_columns cells)"

definition parse_row :: "string list \<Rightarrow> index \<Rightarrow> string \<times> string list \<Rightarrow> index" where
  \<comment> \<open>One round of \<open>for _, row in df.iterrows()\<close>.\<close>
  "parse_row date_columns schedules row =
     (let member_name = strip (fst row) in
      if member_name = [] \<or> lower member_name \<in> set [''nan'', ''none'', []]
      then schedules
      else dict_set member_name (row_schedule date_columns (snd row)) schedules)"

definition parse_availability :: "scheduler \<Rightarrow> py_error + index \<times> scheduler" where
  \<comment> \<open>The dictionary returned and the scheduler after the call; \<open>df.columns[0]\<close> raises on
      a frame with no column.\<close>
  "parse_availability self =
     (case availability_data self of
        None \<Rightarrow> Inr ([], self)
      | Some df \<Rightarrow>
          (case columns df of
             [] \<Rightarrow> Inl IndexError
           | member_column # date_columns \<Rightarrow>
               (let schedules = foldl (parse_row date_columns) [] (rows df)
                in Inr (schedules, self\<lparr>parsed_schedules := schedules\<rparr>))))"

subsection \<open>\<open>_intersect_all_slots\<close> and \<open>_find_common_slots\<close>\<close>

definition new_intersection :: "slot list \<Rightarrow> slot list \<Rightarrow> slot list" where
  \<comment> \<open>The two nested loops over \<open>current_intersection\<close> and \<open>member_slots\<close>.\<close>
  "new_intersection current_intersection member_slots =
     [(max (fst slot1) (fst slot2), min (snd slot1) (snd slot2)).
        slot1 \<leftarrow> current_intersection, slot2 \<leftarrow> member_slots,
        min (snd slot1) (snd slot2) > max (fst slot1) (fst slot2)]"

fun intersect_loop :: "slot list \<Rightarrow> slot list list \<Rightarrow> slot list" where
  \<comment> \<open>\<open>for member_slots in all_member_slots[1:]\<close>, with its \<open>break\<close>.\<close>
  "intersect_loop current_intersection [] = current_intersection"
| "intersect_loop current_intersection (member_slots # rest) =
     (let current_intersection = new_intersection current_intersection member_slots in
      if current_intersection = [] then current_intersection
      else intersect_loop current_intersection rest)"

definition valid_slots :: "slot list \<Rightarrow> rat \<Rightarrow> slot list" where
  \<comment> \<open>The last loop. The duration is a finite number, a rational; Python compares an
      integer with a float by their exact values.\<close>
  "valid_slots current_intersection duration_hours =
     filter (\<lambda>slot. of_int (snd slot - fst slot) \<ge> duration_hours) current_intersection"

definition intersect_all_slots :: "slot list list \<Rightarrow> rat \<Rightarrow> slot list" where
  "intersect_all_slots all_member_slots duration_hours =
     (case all_member_slots of
        [] \<Rightarrow> []
      | first # rest \<Rightarrow> valid_slots (intersect_loop first rest) duration_hours)"

definition find_common_slots :: "(string \<times> slot list) list \<Rightarrow> rat \<Rightarrow> slot list" where
  \<comment> \<open>The desktop version: it calls \<open>_intersect_all_slots\<close>.\<close>
  "find_common_slots members_avail duration_hours =
     (if members_avail = [] then []
      else (let member_slots = map snd members_avail in
            if member_slots = [] then []
            else intersect_all_slots member_slots duration_hours))"

definition find_common_slots_web :: "(string \<times> slot list) list \<Rightarrow> rat \<Rightarrow> slot list" where
  \<comment> \<open>The web version: the same loop, written out in \<open>_find_common_slots\<close>.\<close>
  "find_common_slots_web members_avail duration_hours =
     (if members_avail = [] then []
      else (case map snd members_avail of
              [] \<Rightarrow> []
            | first # rest \<Rightarrow> valid_slots (intersect_loop first rest) duration_hours))"

subsection \<open>\<open>find_best_meeting_time\<close>\<close>

text \<open>
  A slot of the result is a dictionary with fixed keys: a record. An alternative slot has
  the key \<open>coverage\<close> beyond those of a perfect slot. The coverage is the quotient
  \<open>available_count / total_members\<close> as a rational number: the source computes it in
  floating point, where the quotients of two counts over one total are ordered and equal
  as the rationals are, so the sort sees the same keys.
\<close>

record perfect_slot =
  date :: string
  start_time :: int
  end_time :: int
  members_available :: "string list"
  members_unavailable :: "string list"

record alternative_slot = perfect_slot +
  coverage :: rat

record result =
  perfect_slots :: "perfect_slot list"
  best_alternative_slots :: "alternative_slot list"

definition all_dates :: "index \<Rightarrow> string set" where
  "all_dates schedules =
     foldl (\<lambda>dates member_schedule. dates \<union> set (map fst member_schedule)) {} (map snd schedules)"

definition available_on :: "index \<Rightarrow> string \<Rightarrow> (string \<times> slot list) list" where
  \<comment> \<open>The dictionary \<open>members_available\<close> of one date.\<close>
  "available_on schedules dt =
     foldl (\<lambda>members_avail (member, sched).
              (case map_of sched dt of
                 Some sl \<Rightarrow> if sl \<noteq> [] then dict_set member sl members_avail else members_avail
               | None \<Rightarrow> members_avail))
       [] schedules"

definition perfect_for :: "index \<Rightarrow> rat \<Rightarrow> string \<Rightarrow> perfect_slot list" where
  \<comment> \<open>What one date appends to \<open>perfect_slots\<close>.\<close>
  "perfect_for schedules duration_hours dt =
     (let members_avail = available_on schedules dt;
          total_members = length schedules;
          available_count = length members_avail
      in if available_count = 0 then []
         else if available_count = total_members
         then map (\<lambda>slot. \<lparr>date = dt, start_time = fst slot, end_time = snd slot,
                            members_available = map fst members_avail,
                            members_unavailable = []\<rparr>)
                (find_common_slots members_avail duration_hours)
         else [])"

definition alternatives_for :: "index \<Rightarrow> rat \<Rightarrow> string \<Rightarrow> alternative_slot list" where
  \<comment> \<open>What one date appends to \<open>alternative_slots\<close>.\<close>
  "alternatives_for schedules duration_hours dt =
     (let members_avail = available_on schedules dt;
          total_members = length schedules;
          available_count = length members_avail
      in if available_count = 0 then []
         else if available_count \<ge> 2
         then (let common_slots = find_common_slots members_avail duration_hours;
                   unavailable_members =
                     filter (\<lambda>m. m \<notin> set (map fst members_avail)) (map fst schedules)
               in map (\<lambda>slot. \<lparr>date = dt, start_time = fst slot, end_time = snd slot,
                                 members_available = map fst members_avail,
                                 members_unavailable = unavailable_members,
                                 coverage = of_nat available_count / of_nat total_members\<rparr>)
                    common_slots)
         else [])"

definition date_step ::
  "index \<Rightarrow> rat \<Rightarrow> perfect_slot list \<times> alternative_slot list \<Rightarrow> string
     \<Rightarrow> perfect_slot list \<times> alternative_slot list" where
  \<comment> \<open>One round of \<open>for date in sorted(all_dates)\<close> on the two lists.\<close>
  "date_step schedules duration_hours acc dt =
     (fst acc @ perfect_for schedules duration_hours dt,
      snd acc @ alternatives_for schedules duration_hours dt)"

definition find_best_meeting_time :: "scheduler \<Rightarrow> rat \<Rightarrow> result" where
  \<comment> \<open>\<open>list.sort(key, reverse=True)\<close> is a stable sort with the order of the keys
      reversed: the stable \<open>sort_key\<close> on the negated key.\<close>
  "find_best_meeting_time self duration_hours =
     (if parsed_schedules self = [] then \<lparr>perfect_slots = [], best_alternative_slots = []\<rparr>
      else (let acc = foldl (date_step (parsed_schedules self) duration_hours) ([], [])
                        (sorted_list_of_set (all_dates (parsed_schedules self)))
            in \<lparr>perfect_slots = fst acc,
                best_alternative_slots = take 10 (sort_key (\<lambda>x. - coverage x) (snd acc))\<rparr>))"

subsection \<open>\<open>format_time\<close>\<close>

definition format_time :: "int \<Rightarrow> string" where
  "format_time hour =
     (if hour = 0 then ''12AM''
      else if hour < 12 then str_int hour @ ''AM''
      else if hour = 12 then ''12PM''
      else str_int (hour - 12) @ ''PM'')"

section \<open>Reference definitions\<close>

text \<open>
  Definitions that follow the words of the specification, to compare the functions of the
  source with.
\<close>

subsection \<open>The interval intersector\<close>

definition spec_overlap :: "slot \<Rightarrow> slot \<Rightarrow> slot" where
  "spec_overlap a b = (max (fst a) (fst b), min (snd a) (snd b))"

definition spec_pairwise :: "slot list \<Rightarrow> slot list \<Rightarrow> slot list" where
  \<comment> \<open>Every accumulator interval against every interval of the participant; an overlap
      is kept when its end is after its start.\<close>
  "spec_pairwise acc l =
     filter (\<lambda>ov. snd ov > fst ov) (concat (map (\<lambda>a. map (spec_overlap a) l) acc))"

definition spec_intersect :: "slot list list \<Rightarrow> rat \<Rightarrow> slot list" where
  \<comment> \<open>The fold over the participants after the first, then the filter on the length.\<close>
  "spec_intersect sls d =
     (case sls of
        [] \<Rightarrow> []
      | first # others \<Rightarrow>
          filter (\<lambda>i. of_int (snd i - fst i) \<ge> d) (foldl spec_pairwise first others))"

definition contained_in :: "slot \<Rightarrow> slot \<Rightarrow> bool" where
  "contained_in i j = (fst j \<le> fst i \<and> snd i \<le> snd j)"

subsection \<open>The time-range parser\<close>

text \<open>
  The hour normalisation in the words of the specification, on the period as a value of
  its own and the hour as a number.
\<close>

datatype period = AM | PM

fun period_str :: "period \<Rightarrow> string" where
  "period_str AM = ''AM''"
| "period_str PM = ''PM''"

definition spec_to_24h :: "period \<Rightarrow> int \<Rightarrow> int" where
  "spec_to_24h p v = (case p of PM \<Rightarrow> (if v = 12 then v else v + 12)
                              | AM \<Rightarrow> (if v = 12 then 0 else v))"

definition spec_start :: "period option \<Rightarrow> period \<Rightarrow> int \<Rightarrow> int" where
  "spec_start sp ep v =
     (case sp of
        Some p \<Rightarrow> spec_to_24h p v
      | None \<Rightarrow> (case ep of PM \<Rightarrow> (if v < 12 then v + 12 else v) | AM \<Rightarrow> v))"

definition spec_slot :: "string \<Rightarrow> period option \<Rightarrow> string \<Rightarrow> period \<Rightarrow> slot" where
  "spec_slot d1 sp d2 ep = (spec_start sp ep (py_int d1), spec_to_24h ep (py_int d2))"

subsection \<open>The meeting time finder\<close>

text \<open>
  The dates in the order of the loop, and the candidates of the two lists in the order of
  their discovery: date by date, and within a date in the order of the intersector.
\<close>

definition sorted_dates :: "index \<Rightarrow> string list" where
  "sorted_dates schedules = sorted_list_of_set (all_dates schedules)"

definition perfect_candidates :: "index \<Rightarrow> rat \<Rightarrow> perfect_slot list" where
  "perfect_candidates schedules d = concat (map (perfect_for schedules d) (sorted_dates schedules))"

definition alternative_candidates :: "index \<Rightarrow> rat \<Rightarrow> alternative_slot list" where
  "alternative_candidates schedules d =
     concat (map (alternatives_for schedules d) (sorted_dates schedules))"

definition without_coverage :: "alternative_slot \<Rightarrow> perfect_slot" where
  "without_coverage a =
     \<lparr>date = date a, start_time = start_time a, end_time = end_time a,
      members_available = members_available a, members_unavailable = members_unavailable a\<rparr>"

section \<open>Properties\<close>

subsection \<open>The interval intersector\<close>

lemma new_intersection_spec: "new_intersection a l = spec_pairwise a l"
proof (induction a)
  case Nil
  show ?case by (simp add: new_intersection_def spec_pairwise_def)
next
  case (Cons x xs)
  have "concat (map (\<lambda>s2. if max (fst x) (fst s2) < min (snd x) (snd s2)
          then [(max (fst x) (fst s2), min (snd x) (snd s2))] else []) l)
      = filter (\<lambda>ov. fst ov < snd ov) (map (spec_overlap x) l)"
    by (induction l) (simp_all add: spec_overlap_def)
  with Cons show ?case
    by (simp add: new_intersection_def spec_pairwise_def)
qed

lemma foldl_spec_pairwise_Nil: "foldl spec_pairwise [] ls = []"
  by (induction ls) (simp_all add: spec_pairwise_def)

lemma intersect_loop_fold: "intersect_loop cur ls = foldl spec_pairwise cur ls"
  by (induction ls arbitrary: cur)
     (simp_all add: Let_def new_intersection_spec foldl_spec_pairwise_Nil)

lemma spec_pairwise_contained:
  "i \<in> set (spec_pairwise acc l) \<Longrightarrow>
     (\<exists>a \<in> set acc. contained_in i a) \<and> (\<exists>b \<in> set l. contained_in i b)"
proof -
  assume "i \<in> set (spec_pairwise acc l)"
  then obtain a b where ab: "a \<in> set acc" "b \<in> set l" "i = spec_overlap a b"
    by (auto simp: spec_pairwise_def)
  have "contained_in i a" "contained_in i b"
    by (simp_all add: ab(3) spec_overlap_def contained_in_def)
  with ab(1,2) show ?thesis by blast
qed

lemma contained_trans: "contained_in i j \<Longrightarrow> contained_in j k \<Longrightarrow> contained_in i k"
  by (auto simp: contained_in_def)

lemma fold_contained:
  "i \<in> set (foldl spec_pairwise cur ls) \<Longrightarrow>
     (\<exists>a \<in> set cur. contained_in i a) \<and> (\<forall>l \<in> set ls. \<exists>b \<in> set l. contained_in i b)"
proof (induction ls arbitrary: cur)
  case Nil
  then show ?case by (auto simp: contained_in_def)
next
  case (Cons l ls)
  from Cons.prems have "i \<in> set (foldl spec_pairwise (spec_pairwise cur l) ls)" by simp
  from Cons.IH[OF this]
  obtain a where a: "a \<in> set (spec_pairwise cur l)" "contained_in i a"
    and others: "\<forall>l \<in> set ls. \<exists>b \<in> set l. contained_in i b" by blast
  from spec_pairwise_contained[OF a(1)] obtain c b where
    "c \<in> set cur" "contained_in a c" "b \<in> set l" "contained_in a b" by blast
  with a(2) others show ?case by (auto intro: contained_trans)
qed

text \<open>
  Claim C1. On a non-empty sequence of interval lists \<open>_intersect_all_slots\<close> returns the
  fold of the pairwise overlaps over the lists after the first, filtered to the intervals
  of length at least \<open>min_duration\<close>, in the order produced: the early exit on an empty
  accumulator does not show in the result. Every interval returned lies inside an interval
  of every list; with \<open>min_duration \<le> 0\<close> every interval of positive length of the final
  accumulator is returned. Both versions of \<open>_find_common_slots\<close> return this list for the
  values of the dictionary they are given.
\<close>

theorem intersect_all_slots_fold:
  assumes "sls \<noteq> []"
  shows "intersect_all_slots sls d = spec_intersect sls d
     \<and> (\<forall>i \<in> set (intersect_all_slots sls d). \<forall>l \<in> set sls. \<exists>j \<in> set l. contained_in i j)
     \<and> (d \<le> 0 \<longrightarrow> (\<forall>i \<in> set (foldl spec_pairwise (hd sls) (tl sls)).
            fst i < snd i \<longrightarrow> i \<in> set (intersect_all_slots sls d)))
     \<and> (\<forall>ma. map snd ma = sls \<longrightarrow>
            find_common_slots ma d = intersect_all_slots sls d \<and>
            find_common_slots_web ma d = intersect_all_slots sls d)"
proof -
  from assms obtain first others where l: "sls = first # others" by (cases sls) auto
  have eq: "intersect_all_slots sls d = spec_intersect sls d"
    by (simp add: l intersect_all_slots_def spec_intersect_def valid_slots_def intersect_loop_fold)
  have cont: "\<forall>i \<in> set (intersect_all_slots sls d). \<forall>l \<in> set sls. \<exists>j \<in> set l. contained_in i j"
    using fold_contained[of _ first others]
    by (auto simp: l intersect_all_slots_def valid_slots_def intersect_loop_fold)
  have nonpos: "d \<le> 0 \<longrightarrow> (\<forall>i \<in> set (foldl spec_pairwise (hd sls) (tl sls)).
            fst i < snd i \<longrightarrow> i \<in> set (intersect_all_slots sls d))"
  proof (intro impI ballI)
    fix i assume d: "d \<le> 0" and i: "i \<in> set (foldl spec_pairwise (hd sls) (tl sls))"
      and pos: "fst i < snd i"
    have "(0::rat) \<le> of_int (snd i - fst i)" using pos by simp
    with d have "d \<le> of_int (snd i - fst i)" by linarith
    with i show "i \<in> set (intersect_all_slots sls d)"
      by (simp add: l intersect_all_slots_def valid_slots_def intersect_loop_fold)
  qed
  have web: "\<forall>ma. map snd ma = sls \<longrightarrow>
            find_common_slots ma d = intersect_all_slots sls d \<and>
            find_common_slots_web ma d = intersect_all_slots sls d"
    by (auto simp: l find_common_slots_def find_common_slots_web_def intersect_all_slots_def Let_def)
  from eq cont nonpos web show ?thesis by blast
qed

theorem intersect_all_slots_fold_witness:
  "[[(9, 12), (13, 17)], [(10, 14)], [(9::int, 17::int)]] \<noteq> []
   \<and> intersect_all_slots [[(9, 12), (13, 17)], [(10, 14)], [(9, 17)]] 0 = [(10, 12), (13, 14)]
   \<and> spec_intersect [[(9, 12), (13, 17)], [(10, 14)], [(9, 17)]] 0 = [(10, 12), (13, 14)]
   \<and> contained_in (10, 12) (9, 12) \<and> contained_in (10, 12) (10, 14)
   \<and> contained_in (10, 12) (9, 17)
   \<and> (0::rat) \<le> 0
   \<and> foldl spec_pairwise [(9, 12), (13, 17)] [[(10, 14)], [(9, 17)]] = [(10, 12), (13, 14)]
   \<and> map snd [(''Alice'', [(9, 12), (13, 17)]), (''Bob'', [(10, 14)]), (''Carol'', [(9, 17)])]
        = [[(9, 12), (13, 17)], [(10, 14)], [(9::int, 17::int)]]
   \<and> find_common_slots
        [(''Alice'', [(9, 12), (13, 17)]), (''Bob'', [(10, 14)]), (''Carol'', [(9, 17)])] 0
        = [(10, 12), (13, 14)]
   \<and> find_common_slots_web
        [(''Alice'', [(9, 12), (13, 17)]), (''Bob'', [(10, 14)]), (''Carol'', [(9, 17)])] 0
        = [(10, 12), (13, 14)]"
  using intersect_all_slots_fold[of "[[(9, 12), (13, 17)], [(10, 14)], [(9, 17)]]" 0]
  by (simp add: spec_intersect_def spec_pairwise_def spec_overlap_def contained_in_def)

subsection \<open>Absence keywords\<close>

lemma contains_str_iff: "contains_str k s \<longleftrightarrow> (\<exists>pre post. s = pre @ k @ post)"
proof (induction s)
  case Nil
  show ?case by auto
next
  case (Cons c cs)
  show ?case
  proof
    assume "contains_str k (c # cs)"
    then consider "prefix k (c # cs)" | "contains_str k cs" by auto
    then show "\<exists>pre post. c # cs = pre @ k @ post"
    proof cases
      case 1
      then obtain post where "c # cs = k @ post" by (auto simp: prefix_def)
      then have "c # cs = [] @ k @ post" by simp
      then show ?thesis by blast
    next
      case 2
      with Cons obtain pre post where "cs = pre @ k @ post" by blast
      then have "c # cs = (c # pre) @ k @ post" by simp
      then show ?thesis by blast
    qed
  next
    assume "\<exists>pre post. c # cs = pre @ k @ post"
    then obtain pre post where e: "c # cs = pre @ k @ post" by blast
    show "contains_str k (c # cs)"
    proof (cases pre)
      case Nil
      with e have "prefix k (c # cs)" by (simp add: prefix_def)
      then show ?thesis by simp
    next
      case (Cons p ps)
      with e have "cs = ps @ k @ post" by simp
      with Cons.IH have "contains_str k cs" by blast
      then show ?thesis by simp
    qed
  qed
qed

lemma isspace_upper_char: "isspace (upper_char c) = isspace c"
  by (auto simp: isspace_def upper_char_def split: if_splits)

lemma upper_strip: "upper (strip s) = strip (upper s)"
proof -
  have c: "isspace \<circ> upper_char = isspace" by (rule ext) (simp add: isspace_upper_char)
  show ?thesis
    by (simp add: upper_def strip_def dropWhile_map rev_map c)
qed

lemma parse_keyword:
  "list_ex (\<lambda>keyword. contains_str keyword (upper (strip s))) unavailable_keywords
     \<Longrightarrow> parse_time_slot (Str s) = []"
  by simp

text \<open>
  Claim C7. When the trimmed, uppercased text of a cell holds one of the absence keywords
  (\<open>NA\<close>, \<open>N/A\<close>, \<open>ON LEAVE\<close>, \<open>LEAVE\<close>, \<open>UNAVAILABLE\<close>, \<open>OFF\<close>) as a substring at any place,
  \<open>parse_time_slot\<close> returns the empty list, whatever else the cell holds. The cells
  \<open>NA\<close>, \<open>n/a\<close>, \<open>On Leave\<close> and \<open>OFF\<close>, in any mix of upper and lower case, give the empty
  list.
\<close>

theorem absence_keywords_first:
  "(k \<in> set unavailable_keywords \<and> upper (strip s) = pre @ k @ post
       \<longrightarrow> parse_time_slot (Str s) = [])
   \<and> (upper t \<in> set [''NA'', ''N/A'', ''ON LEAVE'', ''OFF''] \<longrightarrow> parse_time_slot (Str t) = [])
   \<and> parse_time_slot (Str ''NA'') = [] \<and> parse_time_slot (Str ''n/a'') = []
   \<and> parse_time_slot (Str ''On Leave'') = [] \<and> parse_time_slot (Str ''OFF'') = []
   \<and> unavailable_keywords = [''NA'', ''N/A'', ''ON LEAVE'', ''LEAVE'', ''UNAVAILABLE'', ''OFF'']"
proof -
  have gen: "parse_time_slot (Str s) = []"
    if "k \<in> set unavailable_keywords" "upper (strip s) = pre @ k @ post" for s k pre post
  proof -
    from that(2) have "contains_str k (upper (strip s))" by (auto simp: contains_str_iff)
    with that(1) have "list_ex (\<lambda>keyword. contains_str keyword (upper (strip s))) unavailable_keywords"
      by (auto simp: list_ex_iff)
    then show ?thesis by (rule parse_keyword)
  qed
  have whole: "parse_time_slot (Str t) = []"
    if "upper t \<in> set [''NA'', ''N/A'', ''ON LEAVE'', ''OFF'']" for t
  proof -
    from that have k: "upper t \<in> set unavailable_keywords"
      by (auto simp: unavailable_keywords_def)
    from that have "strip (upper t) = upper t"
      by (auto simp: strip_def isspace_def)
    then have "upper (strip t) = [] @ upper t @ []" by (simp add: upper_strip)
    with k show ?thesis by (rule gen)
  qed
  have ex: "parse_time_slot (Str ''NA'') = []" "parse_time_slot (Str ''n/a'') = []"
     "parse_time_slot (Str ''On Leave'') = []" "parse_time_slot (Str ''OFF'') = []"
    by (rule whole, simp add: upper_def upper_char_def)+
  from gen whole ex show ?thesis by (auto simp: unavailable_keywords_def)
qed

theorem absence_keywords_first_witness:
  "''LEAVE'' \<in> set unavailable_keywords
   \<and> upper (strip '' 9am-12pm, then on Leave '') = ''9AM-12PM, THEN ON '' @ ''LEAVE'' @ []
   \<and> parse_time_slot (Str '' 9am-12pm, then on Leave '') = []
   \<and> parse_time_slot (Str '' 9am-12pm '') = [(9, 12)]
   \<and> upper ''n/A'' \<in> set [''NA'', ''N/A'', ''ON LEAVE'', ''OFF'']
   \<and> parse_time_slot (Str ''n/A'') = []"
proof -
  have a: "''LEAVE'' \<in> set unavailable_keywords" by (simp add: unavailable_keywords_def)
  have b: "upper (strip '' 9am-12pm, then on Leave '') = ''9AM-12PM, THEN ON '' @ ''LEAVE'' @ []"
    by (simp add: upper_def strip_def isspace_def upper_char_def)
  have c: "upper ''n/A'' \<in> set [''NA'', ''N/A'', ''ON LEAVE'', ''OFF'']"
    by (simp add: upper_def upper_char_def)
  have d: "parse_time_slot (Str '' 9am-12pm '') = [(9, 12)]"
    by (simp add: upper_def strip_def isspace_def upper_char_def unavailable_keywords_def
        part_slots_def time_range_pattern_def am_pm_def en_dash_def slot_of_match_def
        py_int_def digit_val_def isdigit_def)
  from absence_keywords_first[of "''LEAVE''" "'' 9am-12pm, then on Leave ''" "''9AM-12PM, THEN ON ''" "[]" "''n/A''"]
    a b c d show ?thesis by blast
qed

subsection \<open>\<open>format_time\<close>\<close>

text \<open>
  Claim C8. On the hours 0 to 23 \<open>format_time\<close> returns \<open>12AM\<close> for 0, the hour and \<open>AM\<close>
  for 1 to 11, \<open>12PM\<close> for 12, and the hour less 12 and \<open>PM\<close> for 13 to 23.
\<close>

theorem format_time_table:
  "map format_time [0..23] =
     [''12AM'', ''1AM'', ''2AM'', ''3AM'', ''4AM'', ''5AM'', ''6AM'', ''7AM'', ''8AM'', ''9AM'',
      ''10AM'', ''11AM'', ''12PM'', ''1PM'', ''2PM'', ''3PM'', ''4PM'', ''5PM'', ''6PM'', ''7PM'',
      ''8PM'', ''9PM'', ''10PM'', ''11PM'']
   \<and> set [0..23] = {h. 0 \<le> h \<and> h < 24}"
proof
  show "map format_time [0..23] =
     [''12AM'', ''1AM'', ''2AM'', ''3AM'', ''4AM'', ''5AM'', ''6AM'', ''7AM'', ''8AM'', ''9AM'',
      ''10AM'', ''11AM'', ''12PM'', ''1PM'', ''2PM'', ''3PM'', ''4PM'', ''5PM'', ''6PM'', ''7PM'',
      ''8PM'', ''9PM'', ''10PM'', ''11PM'']"
    by (simp add: format_time_def str_int_def upto_rec1)
  have "set [0..23] = {0..23::int}" by (rule set_upto)
  also have "\<dots> = {h. 0 \<le> h \<and> h < 24}" by auto
  finally show "set [0..23] = {h::int. 0 \<le> h \<and> h < 24}" .
qed

subsection \<open>The time-range parser\<close>

lemma rmatch_Seq_iff:
  "(r, h) \<in> set (rmatch (Seq a b) s g) \<longleftrightarrow>
     (\<exists>s1 g1. (s1, g1) \<in> set (rmatch a s g) \<and> (r, h) \<in> set (rmatch b s1 g1))"
  by auto

lemma take_takeWhile_all:
  "n \<le> length (takeWhile P s) \<Longrightarrow> list_all P (take n s)"
proof (induction s arbitrary: n)
  case Nil
  then show ?case by simp
next
  case (Cons c cs)
  then show ?case by (cases n) (auto split: if_splits)
qed

lemma rmatch_Plus_iff:
  "(r, h) \<in> set (rmatch (Plus c) s g) \<longleftrightarrow>
     h = g \<and> (\<exists>n. 1 \<le> n \<and> n \<le> length (takeWhile (in_class c) s) \<and> r = drop n s)"
  by (force simp: image_iff)

lemma rmatch_Star_iff:
  "(r, h) \<in> set (rmatch (Star c) s g) \<longleftrightarrow>
     h = g \<and> (\<exists>n. n \<le> length (takeWhile (in_class c) s) \<and> r = drop n s)"
proof -
  have "set [0 ..< Suc (length (takeWhile (in_class c) s))]
          = {n. n \<le> length (takeWhile (in_class c) s)}" by auto
  then show ?thesis by (auto simp del: upt_Suc)
qed

lemma rmatch_Group_iff:
  "(r, h) \<in> set (rmatch (Group k a) s g) \<longleftrightarrow>
     (\<exists>h'. (r, h') \<in> set (rmatch a s g) \<and> h = h'(k \<mapsto> take (length s - length r) s))"
  by (force simp: image_iff)

lemma rmatch_Plus_shape:
  assumes "(r, h) \<in> set (rmatch (Plus c) s g)"
  shows "h = g \<and> (\<exists>ds. ds \<noteq> [] \<and> list_all (in_class c) ds \<and> s = ds @ r)"
proof -
  from assms obtain n where n: "1 \<le> n" "n \<le> length (takeWhile (in_class c) s)"
      and r: "r = drop n s" and h: "h = g"
    unfolding rmatch_Plus_iff by blast
  have "length (takeWhile (in_class c) s) \<le> length s" by (rule length_takeWhile_le)
  with n have "take n s \<noteq> []" by auto
  moreover have "list_all (in_class c) (take n s)" using n(2) by (rule take_takeWhile_all)
  moreover have "s = take n s @ r" by (simp add: r)
  ultimately show ?thesis using h by blast
qed

lemma rmatch_Star_shape:
  assumes "(r, h) \<in> set (rmatch (Star c) s g)"
  shows "h = g \<and> (\<exists>ws. list_all (in_class c) ws \<and> s = ws @ r)"
proof -
  from assms obtain n where n: "n \<le> length (takeWhile (in_class c) s)"
      and r: "r = drop n s" and h: "h = g"
    unfolding rmatch_Star_iff by blast
  have "list_all (in_class c) (take n s)" using n by (rule take_takeWhile_all)
  moreover have "s = take n s @ r" by (simp add: r)
  ultimately show ?thesis using h by blast
qed

lemma star_space_shape:
  assumes "(r, h) \<in> set (rmatch (Star Space) s g)"
  shows "h = g \<and> (\<exists>ws. list_all isspace ws \<and> s = ws @ r)"
proof -
  from rmatch_Star_shape[OF assms] obtain ws where
    ws: "h = g" "list_all (in_class Space) ws" "s = ws @ r" by blast
  from ws(2) have "list_all isspace ws" by (simp add: list_all_iff)
  with ws(1,3) show ?thesis by blast
qed

lemma group_digits_shape:
  assumes "(r, h) \<in> set (rmatch (Group k (Plus Digit)) s g)"
  shows "\<exists>ds. ds \<noteq> [] \<and> list_all isdigit ds \<and> s = ds @ r \<and> h = g(k \<mapsto> ds)"
proof -
  from assms obtain h' where h': "(r, h') \<in> set (rmatch (Plus Digit) s g)"
    and h: "h = h'(k \<mapsto> take (length s - length r) s)"
    unfolding rmatch_Group_iff by blast
  from rmatch_Plus_shape[OF h'] obtain ds where
    ds: "h' = g" "ds \<noteq> []" "list_all (in_class Digit) ds" "s = ds @ r" by blast
  then have "take (length s - length r) s = ds" by simp
  with h ds show ?thesis by (auto simp: list_all_iff)
qed

lemma rmatch_am_pm_iff:
  "(r, h) \<in> set (rmatch am_pm s g) \<longleftrightarrow> h = g \<and> (s = ''AM'' @ r \<or> s = ''PM'' @ r)"
  by (auto simp: am_pm_def prefix_def)

lemma group_am_pm_shape:
  assumes "(r, h) \<in> set (rmatch (Group k am_pm) s g)"
  shows "\<exists>p. (p = ''AM'' \<or> p = ''PM'') \<and> s = p @ r \<and> h = g(k \<mapsto> p)"
proof -
  from assms obtain h' where h': "(r, h') \<in> set (rmatch am_pm s g)"
    and h: "h = h'(k \<mapsto> take (length s - length r) s)"
    unfolding rmatch_Group_iff by blast
  from h' obtain p where p: "p = ''AM'' \<or> p = ''PM''" "h' = g" "s = p @ r"
    unfolding rmatch_am_pm_iff by blast
  then have "take (length s - length r) s = p" by simp
  with h p show ?thesis by auto
qed

lemma dash_shape:
  "(r, h) \<in> set (rmatch (Alt (Lit ''-'') (Lit en_dash)) s g)
     \<Longrightarrow> h = g \<and> (s = ''-'' @ r \<or> s = en_dash @ r)"
  by (auto simp: prefix_def split: if_splits)

lemma SeqE:
  assumes "(r, h) \<in> set (rmatch (Seq a b) s g)"
  obtains s1 g1 where "(s1, g1) \<in> set (rmatch a s g)" "(r, h) \<in> set (rmatch b s1 g1)"
  using assms unfolding rmatch_Seq_iff by blast

lemma tail4_shape:
  assumes "(r, g) \<in> set (rmatch (Seq (Star Space) (Group 4 am_pm)) s g0)"
  shows "\<exists>w4 ep. list_all isspace w4 \<and> (ep = ''AM'' \<or> ep = ''PM'')
           \<and> s = w4 @ ep @ r \<and> g = g0(4 \<mapsto> ep)"
proof -
  from assms obtain s1 g1 where m1: "(s1, g1) \<in> set (rmatch (Star Space) s g0)"
    and m2: "(r, g) \<in> set (rmatch (Group 4 am_pm) s1 g1)" by (rule SeqE)
  from star_space_shape[OF m1] obtain w4 where
    w4: "g1 = g0" "list_all isspace w4" "s = w4 @ s1" by blast
  from group_am_pm_shape[OF m2] obtain ep where
    ep: "ep = ''AM'' \<or> ep = ''PM''" "s1 = ep @ r" "g = g1(4 \<mapsto> ep)" by blast
  have "s = w4 @ ep @ r" by (simp add: w4(3) ep(2))
  moreover have "g = g0(4 \<mapsto> ep)" by (simp add: ep(3) w4(1))
  ultimately show ?thesis using w4(2) ep(1) by blast
qed

lemma tail3_shape:
  assumes "(r, g) \<in> set (rmatch (Seq (Star Space) (Seq (Group 3 (Plus Digit))
              (Seq (Star Space) (Group 4 am_pm)))) s g0)"
  shows "\<exists>w3 d2 w4 ep. list_all isspace w3 \<and> d2 \<noteq> [] \<and> list_all isdigit d2
           \<and> list_all isspace w4 \<and> (ep = ''AM'' \<or> ep = ''PM'')
           \<and> s = w3 @ d2 @ w4 @ ep @ r \<and> g = g0(3 \<mapsto> d2, 4 \<mapsto> ep)"
proof -
  from assms obtain s1 g1 where m1: "(s1, g1) \<in> set (rmatch (Star Space) s g0)"
    and m2: "(r, g) \<in> set (rmatch (Seq (Group 3 (Plus Digit))
              (Seq (Star Space) (Group 4 am_pm))) s1 g1)" by (rule SeqE)
  from m2 obtain s2 g2 where m3: "(s2, g2) \<in> set (rmatch (Group 3 (Plus Digit)) s1 g1)"
    and m4: "(r, g) \<in> set (rmatch (Seq (Star Space) (Group 4 am_pm)) s2 g2)" by (rule SeqE)
  from star_space_shape[OF m1] obtain w3 where
    w3: "g1 = g0" "list_all isspace w3" "s = w3 @ s1" by blast
  from group_digits_shape[OF m3] obtain d2 where
    d2: "d2 \<noteq> []" "list_all isdigit d2" "s1 = d2 @ s2" "g2 = g1(3 \<mapsto> d2)" by blast
  from tail4_shape[OF m4] obtain w4 ep where
    t: "list_all isspace w4" "ep = ''AM'' \<or> ep = ''PM''" "s2 = w4 @ ep @ r" "g = g2(4 \<mapsto> ep)"
    by blast
  have "s = w3 @ d2 @ w4 @ ep @ r" by (simp add: w3(3) d2(3) t(3))
  moreover have "g = g0(3 \<mapsto> d2, 4 \<mapsto> ep)" by (simp add: t(4) d2(4) w3(1))
  ultimately show ?thesis using w3(2) d2(1,2) t(1,2) by blast
qed

lemma tail2_shape:
  assumes "(r, g) \<in> set (rmatch (Seq (Star Space) (Seq (Alt (Lit ''-'') (Lit en_dash))
             (Seq (Star Space) (Seq (Group 3 (Plus Digit))
              (Seq (Star Space) (Group 4 am_pm)))))) s g0)"
  shows "\<exists>w2 dash w3 d2 w4 ep. list_all isspace w2 \<and> (dash = ''-'' \<or> dash = en_dash)
           \<and> list_all isspace w3 \<and> d2 \<noteq> [] \<and> list_all isdigit d2
           \<and> list_all isspace w4 \<and> (ep = ''AM'' \<or> ep = ''PM'')
           \<and> s = w2 @ dash @ w3 @ d2 @ w4 @ ep @ r \<and> g = g0(3 \<mapsto> d2, 4 \<mapsto> ep)"
proof -
  from assms obtain s1 g1 where m1: "(s1, g1) \<in> set (rmatch (Star Space) s g0)"
    and m2: "(r, g) \<in> set (rmatch (Seq (Alt (Lit ''-'') (Lit en_dash))
             (Seq (Star Space) (Seq (Group 3 (Plus Digit))
              (Seq (Star Space) (Group 4 am_pm))))) s1 g1)" by (rule SeqE)
  from m2 obtain s2 g2 where
    m3: "(s2, g2) \<in> set (rmatch (Alt (Lit ''-'') (Lit en_dash)) s1 g1)"
    and m4: "(r, g) \<in> set (rmatch (Seq (Star Space) (Seq (Group 3 (Plus Digit))
              (Seq (Star Space) (Group 4 am_pm)))) s2 g2)" by (rule SeqE)
  from star_space_shape[OF m1] obtain w2 where
    w2: "g1 = g0" "list_all isspace w2" "s = w2 @ s1" by blast
  from dash_shape[OF m3] obtain dash where
    dash: "g2 = g1" "dash = ''-'' \<or> dash = en_dash" "s1 = dash @ s2" by blast
  from tail3_shape[OF m4] obtain w3 d2 w4 ep where
    t: "list_all isspace w3" "d2 \<noteq> []" "list_all isdigit d2" "list_all isspace w4"
       "ep = ''AM'' \<or> ep = ''PM''" "s2 = w3 @ d2 @ w4 @ ep @ r" "g = g2(3 \<mapsto> d2, 4 \<mapsto> ep)"
    by blast
  have "s = w2 @ dash @ w3 @ d2 @ w4 @ ep @ r" by (simp add: w2(3) dash(3) t(6))
  moreover have "g = g0(3 \<mapsto> d2, 4 \<mapsto> ep)" by (simp add: t(7) dash(1) w2(1))
  ultimately show ?thesis using w2(2) dash(2) t(1-5) by blast
qed

lemma pattern_shape:
  assumes "(r, g) \<in> set (rmatch time_range_pattern s Map.empty)"
  shows "\<exists>d1 w1 sp w2 dash w3 d2 w4 ep.
     d1 \<noteq> [] \<and> list_all isdigit d1 \<and> list_all isspace w1
     \<and> (sp = None \<or> sp = Some ''AM'' \<or> sp = Some ''PM'')
     \<and> list_all isspace w2 \<and> (dash = ''-'' \<or> dash = en_dash)
     \<and> list_all isspace w3 \<and> d2 \<noteq> [] \<and> list_all isdigit d2
     \<and> list_all isspace w4 \<and> (ep = ''AM'' \<or> ep = ''PM'')
     \<and> s = d1 @ w1 @ (case sp of None \<Rightarrow> [] | Some p \<Rightarrow> p) @ w2 @ dash @ w3 @ d2 @ w4 @ ep @ r
     \<and> g 1 = Some d1 \<and> g 2 = sp \<and> g 3 = Some d2 \<and> g 4 = Some ep"
proof -
  from assms obtain s1 g1 where m1: "(s1, g1) \<in> set (rmatch (Group 1 (Plus Digit)) s Map.empty)"
    and m2: "(r, g) \<in> set (rmatch (Seq (Star Space) (Seq (Opt (Group 2 am_pm))
        (Seq (Star Space) (Seq (Alt (Lit ''-'') (Lit en_dash))
             (Seq (Star Space) (Seq (Group 3 (Plus Digit))
              (Seq (Star Space) (Group 4 am_pm)))))))) s1 g1)"
    unfolding time_range_pattern_def by (rule SeqE)
  from m2 obtain s2 g2 where m3: "(s2, g2) \<in> set (rmatch (Star Space) s1 g1)"
    and m4: "(r, g) \<in> set (rmatch (Seq (Opt (Group 2 am_pm))
        (Seq (Star Space) (Seq (Alt (Lit ''-'') (Lit en_dash))
             (Seq (Star Space) (Seq (Group 3 (Plus Digit))
              (Seq (Star Space) (Group 4 am_pm))))))) s2 g2)" by (rule SeqE)
  from m4 obtain s3 g3 where m5: "(s3, g3) \<in> set (rmatch (Opt (Group 2 am_pm)) s2 g2)"
    and m6: "(r, g) \<in> set (rmatch
        (Seq (Star Space) (Seq (Alt (Lit ''-'') (Lit en_dash))
             (Seq (Star Space) (Seq (Group 3 (Plus Digit))
              (Seq (Star Space) (Group 4 am_pm)))))) s3 g3)" by (rule SeqE)
  from group_digits_shape[OF m1] obtain d1 where
    d1: "d1 \<noteq> []" "list_all isdigit d1" "s = d1 @ s1" "g1 = Map.empty(1 \<mapsto> d1)" by blast
  from star_space_shape[OF m3] obtain w1 where
    w1: "g2 = g1" "list_all isspace w1" "s1 = w1 @ s2" by blast
  from tail2_shape[OF m6] obtain w2 dash w3 d2 w4 ep where
    t: "list_all isspace w2" "dash = ''-'' \<or> dash = en_dash"
       "list_all isspace w3" "d2 \<noteq> []" "list_all isdigit d2"
       "list_all isspace w4" "ep = ''AM'' \<or> ep = ''PM''"
       "s3 = w2 @ dash @ w3 @ d2 @ w4 @ ep @ r" "g = g3(3 \<mapsto> d2, 4 \<mapsto> ep)"
    by blast
  from m5 have "(s3, g3) \<in> set (rmatch (Group 2 am_pm) s2 g2) \<or> (s3 = s2 \<and> g3 = g2)"
    by (simp only: rmatch.simps set_append) auto
  then show ?thesis
  proof
    assume "(s3, g3) \<in> set (rmatch (Group 2 am_pm) s2 g2)"
    from group_am_pm_shape[OF this] obtain p where
      p: "p = ''AM'' \<or> p = ''PM''" "s2 = p @ s3" "g3 = g2(2 \<mapsto> p)" by blast
    have s: "s = d1 @ w1 @ (case Some p of None \<Rightarrow> [] | Some p \<Rightarrow> p)
                 @ w2 @ dash @ w3 @ d2 @ w4 @ ep @ r"
      by (simp add: d1(3) w1(3) p(2) t(8))
    have g: "g 1 = Some d1" "g 2 = Some p" "g 3 = Some d2" "g 4 = Some ep"
      by (simp_all add: t(9) p(3) w1(1) d1(4))
    have sp: "Some p = None \<or> Some p = Some ''AM'' \<or> Some p = Some ''PM''"
      using p(1) by simp
    show ?thesis
      apply (rule exI[of _ d1], rule exI[of _ w1], rule exI[of _ "Some p"], rule exI[of _ w2])
      apply (rule exI[of _ dash], rule exI[of _ w3], rule exI[of _ d2], rule exI[of _ w4])
      apply (rule exI[of _ ep])
      apply (intro conjI)
      apply (fact d1 w1 t sp s g)+
      done
  next
    assume a: "s3 = s2 \<and> g3 = g2"
    have s: "s = d1 @ w1 @ (case None of None \<Rightarrow> [] | Some p \<Rightarrow> p)
                 @ w2 @ dash @ w3 @ d2 @ w4 @ ep @ r"
      using a by (simp add: d1(3) w1(3) t(8))
    have g: "g 1 = Some d1" "g 2 = None" "g 3 = Some d2" "g 4 = Some ep"
      using a by (simp_all add: t(9) w1(1) d1(4))
    have sp: "None = None \<or> None = Some ''AM'' \<or> None = Some ''PM''" by simp
    show ?thesis
      apply (rule exI[of _ d1], rule exI[of _ w1], rule exI[of _ None], rule exI[of _ w2])
      apply (rule exI[of _ dash], rule exI[of _ w3], rule exI[of _ d2], rule exI[of _ w4])
      apply (rule exI[of _ ep])
      apply (intro conjI)
      apply (fact d1 w1 t sp s g)+
      done
  qed
qed


lemma re_search_SomeD:
  "re_search r s = Some g \<Longrightarrow>
     \<exists>i rest tl. i \<le> length s \<and> rmatch r (drop i s) Map.empty = (rest, g) # tl
        \<and> (\<forall>j<i. rmatch r (drop j s) Map.empty = [])"
proof (induction s)
  case Nil
  then obtain rest tl where "rmatch r [] Map.empty = (rest, g) # tl"
    by (auto split: list.splits)
  then show ?case by auto
next
  case (Cons c cs)
  show ?case
  proof (cases "rmatch r (c # cs) Map.empty")
    case Nil
    with Cons.prems have "re_search r cs = Some g" by simp
    from Cons.IH[OF this] obtain i rest tl where
      i: "i \<le> length cs" "rmatch r (drop i cs) Map.empty = (rest, g) # tl"
         "\<forall>j<i. rmatch r (drop j cs) Map.empty = []" by blast
    have "\<forall>j<Suc i. rmatch r (drop j (c # cs)) Map.empty = []"
    proof (intro allI impI)
      fix j assume "j < Suc i"
      then show "rmatch r (drop j (c # cs)) Map.empty = []"
        using Nil i(3) by (cases j) auto
    qed
    moreover have "Suc i \<le> length (c # cs)" using i(1) by simp
    moreover have "rmatch r (drop (Suc i) (c # cs)) Map.empty = (rest, g) # tl"
      using i(2) by simp
    ultimately show ?thesis by blast
  next
    case (Cons a tl)
    with Cons.prems have "rmatch r (drop 0 (c # cs)) Map.empty = (fst a, g) # tl"
      by (cases a) auto
    then show ?thesis by blast
  qed
qed

lemma re_search_NoneD:
  "re_search r s = None \<Longrightarrow> i \<le> length s \<Longrightarrow> rmatch r (drop i s) Map.empty = []"
proof (induction s arbitrary: i)
  case Nil
  then show ?case by (auto split: list.splits)
next
  case (Cons c cs)
  from Cons.prems(1) have h: "rmatch r (c # cs) Map.empty = []" "re_search r cs = None"
    by (auto split: list.splits)
  show ?case
  proof (cases i)
    case 0
    with h(1) show ?thesis by simp
  next
    case (Suc k)
    with Cons.prems(2) have "k \<le> length cs" by simp
    from Cons.IH[OF h(2) this] show ?thesis using Suc by simp
  qed
qed

lemma pattern_no_empty_match: "rmatch time_range_pattern [] Map.empty = []"
  by (simp add: time_range_pattern_def)


lemma slot_of_match_spec:
  assumes "g 1 = Some d1" "g 2 = map_option period_str sp" "g 3 = Some d2"
    "g 4 = Some (period_str ep)"
  shows "slot_of_match g = spec_slot d1 sp d2 ep"
proof (cases ep)
  case AM
  show ?thesis
  proof (cases sp)
    case None
    with AM assms show ?thesis
      by (simp add: slot_of_match_def spec_slot_def spec_start_def spec_to_24h_def)
  next
    case (Some p)
    with AM assms show ?thesis
      by (cases p) (simp_all add: slot_of_match_def spec_slot_def spec_start_def spec_to_24h_def)
  qed
next
  case PM
  show ?thesis
  proof (cases sp)
    case None
    with PM assms show ?thesis
      by (simp add: slot_of_match_def spec_slot_def spec_start_def spec_to_24h_def)
  next
    case (Some p)
    with PM assms show ?thesis
      by (cases p) (simp_all add: slot_of_match_def spec_slot_def spec_start_def spec_to_24h_def)
  qed
qed

lemma pattern_groups:
  assumes "(r, g) \<in> set (rmatch time_range_pattern s Map.empty)"
  shows "\<exists>d1 sp d2 ep. d1 \<noteq> [] \<and> list_all isdigit d1 \<and> d2 \<noteq> [] \<and> list_all isdigit d2
     \<and> g 1 = Some d1 \<and> g 2 = map_option period_str sp \<and> g 3 = Some d2
     \<and> g 4 = Some (period_str ep)"
proof -
  from pattern_shape[OF assms] obtain d1 sp d2 ep where
    h: "d1 \<noteq> []" "list_all isdigit d1" "d2 \<noteq> []" "list_all isdigit d2"
       "sp = None \<or> sp = Some ''AM'' \<or> sp = Some ''PM''" "ep = ''AM'' \<or> ep = ''PM''"
       "g 1 = Some d1" "g 2 = sp" "g 3 = Some d2" "g 4 = Some ep"
    by blast
  from h(5) obtain sp' where sp': "sp = map_option period_str sp'"
  proof (elim disjE)
    assume "sp = None" then show ?thesis using that[of None] by simp
  next
    assume "sp = Some ''AM''" then show ?thesis using that[of "Some AM"] by simp
  next
    assume "sp = Some ''PM''" then show ?thesis using that[of "Some PM"] by simp
  qed
  from h(6) obtain ep' where ep': "ep = period_str ep'"
  proof
    assume "ep = ''AM''" then show ?thesis using that[of AM] by simp
  next
    assume "ep = ''PM''" then show ?thesis using that[of PM] by simp
  qed
  from h(1-4,7-10) sp' ep' show ?thesis by blast
qed

lemma part_slots_match:
  assumes "re_search time_range_pattern (strip part) = Some g"
  shows "part_slots part = [slot_of_match g]"
proof -
  have "strip part \<noteq> []"
  proof
    assume "strip part = []"
    with assms show False by (simp add: pattern_no_empty_match)
  qed
  with assms show ?thesis by (simp add: part_slots_def)
qed

lemma parse_time_slot_parts:
  assumes "\<not> list_ex (\<lambda>k. contains_str k (upper (strip cell))) unavailable_keywords"
  shows "parse_time_slot (Str cell) = concat (map part_slots (re_split (upper (strip cell))))"
proof -
  have "foldl (\<lambda>slots part. slots @ part_slots part) acc ps = acc @ concat (map part_slots ps)"
    for acc ps
    by (induction ps arbitrary: acc) simp_all
  with assms show ?thesis by simp
qed

lemmas eval_parse =
  upper_def strip_def isspace_def upper_char_def unavailable_keywords_def
  part_slots_def time_range_pattern_def am_pm_def en_dash_def slot_of_match_def
  py_int_def digit_val_def isdigit_def

text \<open>
  Claim C2. On a part of a cell that the time-range pattern matches, \<open>parse_time_slot\<close>
  converts the end hour by its own period (\<open>PM\<close> adds 12 unless the value is 12, \<open>AM\<close>
  makes 12 into 0), converts a start hour with a period of its own in the same way, and
  takes the period of a start hour without one from the end: an end in \<open>PM\<close> adds 12 to a
  start below 12, an end in \<open>AM\<close> leaves the start as it is. A cell without an absence
  keyword gives the slots of its parts in order. \<open>9AM-12PM\<close> gives \<open>[(9, 12)]\<close>, \<open>1-3PM\<close>
  gives \<open>[(13, 15)]\<close> and \<open>9-12PM\<close> gives the interval \<open>(21, 12)\<close>, which is kept.
\<close>

theorem parse_time_slot_hours:
  "(re_search time_range_pattern (strip part) = Some g \<longrightarrow>
      (\<exists>d1 sp d2 ep. g 1 = Some d1 \<and> g 2 = map_option period_str sp \<and> g 3 = Some d2
          \<and> g 4 = Some (period_str ep) \<and> part_slots part = [spec_slot d1 sp d2 ep]))
   \<and> (\<not> list_ex (\<lambda>k. contains_str k (upper (strip cell))) unavailable_keywords \<longrightarrow>
        parse_time_slot (Str cell) = concat (map part_slots (re_split (upper (strip cell)))))
   \<and> parse_time_slot (Str ''9AM-12PM'') = [(9, 12)]
   \<and> parse_time_slot (Str ''1-3PM'') = [(13, 15)]
   \<and> parse_time_slot (Str ''9-12PM'') = [(21, 12)]"
proof (intro conjI impI)
  assume m: "re_search time_range_pattern (strip part) = Some g"
  from re_search_SomeD[OF m] obtain i rest tl where
    "rmatch time_range_pattern (drop i (strip part)) Map.empty = (rest, g) # tl" by blast
  then have "(rest, g) \<in> set (rmatch time_range_pattern (drop i (strip part)) Map.empty)"
    by simp
  from pattern_groups[OF this] obtain d1 sp d2 ep where
    g: "g 1 = Some d1" "g 2 = map_option period_str sp" "g 3 = Some d2"
       "g 4 = Some (period_str ep)" by blast
  have "part_slots part = [spec_slot d1 sp d2 ep]"
    using part_slots_match[OF m] slot_of_match_spec[OF g] by simp
  with g show "\<exists>d1 sp d2 ep. g 1 = Some d1 \<and> g 2 = map_option period_str sp \<and> g 3 = Some d2
          \<and> g 4 = Some (period_str ep) \<and> part_slots part = [spec_slot d1 sp d2 ep]"
    by blast
next
  assume "\<not> list_ex (\<lambda>k. contains_str k (upper (strip cell))) unavailable_keywords"
  then show "parse_time_slot (Str cell) = concat (map part_slots (re_split (upper (strip cell))))"
    by (rule parse_time_slot_parts)
next
  show "parse_time_slot (Str ''9AM-12PM'') = [(9, 12)]" by (simp add: eval_parse)
  show "parse_time_slot (Str ''1-3PM'') = [(13, 15)]" by (simp add: eval_parse)
  show "parse_time_slot (Str ''9-12PM'') = [(21, 12)]" by (simp add: eval_parse)
qed

theorem parse_time_slot_hours_witness:
  "re_search time_range_pattern (strip '' 11 AM - 1PM '')
      = Some [1::nat \<mapsto> ''11'', 2 \<mapsto> ''AM'', 3 \<mapsto> ''1'', 4 \<mapsto> ''PM'']
   \<and> part_slots '' 11 AM - 1PM '' = [spec_slot ''11'' (Some AM) ''1'' PM]
   \<and> spec_slot ''11'' (Some AM) ''1'' PM = (11, 13)
   \<and> \<not> list_ex (\<lambda>k. contains_str k (upper (strip ''9-11am; 1-3 pm''))) unavailable_keywords
   \<and> parse_time_slot (Str ''9-11am; 1-3 pm'') = [(9, 11), (13, 15)]
   \<and> concat (map part_slots (re_split (upper (strip ''9-11am; 1-3 pm'')))) = [(9, 11), (13, 15)]"
proof -
  let ?g = "[1::nat \<mapsto> ''11'', 2 \<mapsto> ''AM'', 3 \<mapsto> ''1'', 4 \<mapsto> ''PM'']"
  have m: "re_search time_range_pattern (strip '' 11 AM - 1PM '') = Some ?g"
    by (simp add: eval_parse)
  have k: "\<not> list_ex (\<lambda>k. contains_str k (upper (strip ''9-11am; 1-3 pm''))) unavailable_keywords"
    by (simp add: eval_parse)
  note t = parse_time_slot_hours[of "'' 11 AM - 1PM ''" ?g "''9-11am; 1-3 pm''"]
  from t m obtain d1 sp d2 ep where
    g: "?g 1 = Some d1" "?g 2 = map_option period_str sp" "?g 3 = Some d2"
       "?g 4 = Some (period_str ep)"
    and p: "part_slots '' 11 AM - 1PM '' = [spec_slot d1 sp d2 ep]" by blast
  from g(1) have d1: "d1 = ''11''" by simp
  from g(3) have d2: "d2 = ''1''" by simp
  from g(2) have sp: "sp = Some AM"
    by (cases sp; cases "the sp") auto
  from g(4) have ep: "ep = PM" by (cases ep) auto
  have v: "spec_slot ''11'' (Some AM) ''1'' PM = (11, 13)"
    by (simp add: spec_slot_def spec_start_def spec_to_24h_def py_int_def digit_val_def)
  from t k have c: "parse_time_slot (Str ''9-11am; 1-3 pm'')
      = concat (map part_slots (re_split (upper (strip ''9-11am; 1-3 pm''))))" by blast
  have e: "parse_time_slot (Str ''9-11am; 1-3 pm'') = [(9, 11), (13, 15)]"
    by (simp add: eval_parse)
  from m p v k c e show ?thesis unfolding d1 d2 sp ep by simp
qed

subsection \<open>The search for the pattern\<close>

lemma rmatch_Lit_shape:
  "(r, h) \<in> set (rmatch (Lit l) s g) \<Longrightarrow> h = g \<and> s = l @ r"
  by (auto simp: prefix_def split: if_splits)

lemma rmatch_suffix: "(r', h) \<in> set (rmatch r s g) \<Longrightarrow> \<exists>m. s = m @ r'"
proof (induction r arbitrary: s g r' h)
  case (Lit l)
  from rmatch_Lit_shape[OF Lit] show ?case by blast
next
  case (Plus c)
  from rmatch_Plus_shape[OF Plus] show ?case by blast
next
  case (Star c)
  from rmatch_Star_shape[OF Star] show ?case by blast
next
  case (Seq a b)
  from Seq.prems obtain s1 g1 where
    "(s1, g1) \<in> set (rmatch a s g)" "(r', h) \<in> set (rmatch b s1 g1)" by (rule SeqE)
  with Seq.IH obtain m1 m2 where "s = m1 @ s1" "s1 = m2 @ r'" by blast
  then have "s = (m1 @ m2) @ r'" by simp
  then show ?case by blast
next
  case (Alt a b)
  from Alt.prems have "(r', h) \<in> set (rmatch a s g) \<or> (r', h) \<in> set (rmatch b s g)"
    by simp
  with Alt.IH show ?case by blast
next
  case (Opt a)
  from Opt.prems have "(r', h) \<in> set (rmatch a s g) \<or> r' = s" by auto
  with Opt.IH show ?case by blast
next
  case (Group k a)
  from Group.prems obtain h' where "(r', h') \<in> set (rmatch a s g)"
    unfolding rmatch_Group_iff by blast
  with Group.IH show ?case by blast
qed

lemma length_takeWhile_append:
  "length (takeWhile P s) \<le> length (takeWhile P (s @ t))"
  by (induction s) simp_all

lemma rmatch_append:
  "(r', h) \<in> set (rmatch r s g) \<Longrightarrow> (r' @ t, h) \<in> set (rmatch r (s @ t) g)"
proof (induction r arbitrary: s g r' h)
  case (Lit l)
  from rmatch_Lit_shape[OF Lit] have "h = g" "s = l @ r'" by simp_all
  then show ?case by simp
next
  case (Plus c)
  from Plus obtain n where n: "1 \<le> n" "n \<le> length (takeWhile (in_class c) s)"
    and r: "r' = drop n s" and h: "h = g"
    unfolding rmatch_Plus_iff by blast
  have "n \<le> length s" using n(2) length_takeWhile_le[of "in_class c" s] by simp
  then have "r' @ t = drop n (s @ t)" by (simp add: r)
  moreover have "n \<le> length (takeWhile (in_class c) (s @ t))"
    using n(2) length_takeWhile_append[of "in_class c" s t] by simp
  ultimately show ?case unfolding rmatch_Plus_iff using n(1) h by blast
next
  case (Star c)
  from Star obtain n where n: "n \<le> length (takeWhile (in_class c) s)"
    and r: "r' = drop n s" and h: "h = g"
    unfolding rmatch_Star_iff by blast
  have "n \<le> length s" using n length_takeWhile_le[of "in_class c" s] by simp
  then have "r' @ t = drop n (s @ t)" by (simp add: r)
  moreover have "n \<le> length (takeWhile (in_class c) (s @ t))"
    using n length_takeWhile_append[of "in_class c" s t] by simp
  ultimately show ?case unfolding rmatch_Star_iff using h by blast
next
  case (Seq a b)
  from Seq.prems obtain s1 g1 where
    "(s1, g1) \<in> set (rmatch a s g)" "(r', h) \<in> set (rmatch b s1 g1)" by (rule SeqE)
  with Seq.IH have "(s1 @ t, g1) \<in> set (rmatch a (s @ t) g)"
    "(r' @ t, h) \<in> set (rmatch b (s1 @ t) g1)" by blast+
  then show ?case unfolding rmatch_Seq_iff by blast
next
  case (Alt a b)
  from Alt.prems have "(r', h) \<in> set (rmatch a s g) \<or> (r', h) \<in> set (rmatch b s g)"
    by simp
  with Alt.IH show ?case by auto
next
  case (Opt a)
  from Opt.prems have "(r', h) \<in> set (rmatch a s g) \<or> (r' = s \<and> h = g)" by auto
  with Opt.IH show ?case by auto
next
  case (Group k a)
  from Group.prems obtain h' where h': "(r', h') \<in> set (rmatch a s g)"
    and h: "h = h'(k \<mapsto> take (length s - length r') s)"
    unfolding rmatch_Group_iff by blast
  from rmatch_suffix[OF h'] obtain m where m: "s = m @ r'" by blast
  have "take (length (s @ t) - length (r' @ t)) (s @ t) = take (length s - length r') s"
    by (simp add: m)
  with Group.IH[OF h'] h show ?case unfolding rmatch_Group_iff by metis
qed

lemma length_concat_le:
  "(\<And>x. length (f x) \<le> 1) \<Longrightarrow> length (concat (map f xs)) \<le> length xs"
proof (induction xs)
  case Nil
  show ?case by simp
next
  case (Cons x xs)
  from Cons.prems have "length (f x) \<le> 1" .
  moreover from Cons have "length (concat (map f xs)) \<le> length xs" by blast
  ultimately show ?case by simp
qed

lemma part_slots_at_most_one: "length (part_slots part) \<le> 1"
  by (simp add: part_slots_def Let_def split: option.splits)

lemma strip_fixed:
  assumes "s \<noteq> []" "\<not> isspace (hd s)" "\<not> isspace (last s)"
  shows "strip s = s"
proof -
  from assms(1,2) have a: "dropWhile isspace s = s" by (cases s) auto
  from assms(1,3) have "dropWhile isspace (rev s) = rev s"
    by (cases "rev s") (auto simp: last_rev[symmetric] simp del: last_rev)
  with a show ?thesis by (simp add: strip_def)
qed

lemma strip_ends:
  assumes "strip s \<noteq> []"
  shows "\<not> isspace (hd (strip s)) \<and> \<not> isspace (last (strip s))"
proof -
  define t where "t = dropWhile isspace s"
  define u where "u = rev (dropWhile isspace (rev t))"
  define w where "w = rev (takeWhile isspace (rev t))"
  have su: "strip s = u" by (simp add: strip_def u_def t_def)
  with assms have une: "u \<noteq> []" by simp
  then have ne: "dropWhile isspace (rev t) \<noteq> []" by (simp add: u_def)
  then have "\<not> isspace (hd (dropWhile isspace (rev t)))" by (rule hd_dropWhile)
  with ne have l: "\<not> isspace (last u)" by (simp add: u_def last_rev)
  have tu: "t = u @ w"
    unfolding u_def w_def by (metis rev_append rev_rev_ident takeWhile_dropWhile_id)
  from une have h: "hd t = hd u" unfolding tu by simp
  from une have "t \<noteq> []" unfolding tu by simp
  then have "\<not> isspace (hd t)" unfolding t_def by (rule hd_dropWhile)
  with h l su show ?thesis by simp
qed

lemma strip_idem: "strip (strip s) = strip s"
proof (cases "strip s = []")
  case True
  have "strip [] = []" by (simp add: strip_def)
  with True show ?thesis by simp
next
  case False
  from strip_ends[OF False] False show ?thesis by (intro strip_fixed) simp_all
qed

lemma strip_upper_strip: "strip (upper (strip s)) = upper (strip s)"
  by (simp add: upper_strip[symmetric] strip_idem)

lemma re_split_single:
  "\<forall>c \<in> set s. c \<noteq> CHR '','' \<and> c \<noteq> CHR '';'' \<Longrightarrow> re_split s = [s]"
  by (induction s) simp_all

lemma part_first_match:
  assumes "strip part = pre @ m @ post" "rmatch time_range_pattern m Map.empty \<noteq> []"
  shows "\<exists>i rest g tl. i \<le> length pre
           \<and> rmatch time_range_pattern (drop i (strip part)) Map.empty = (rest, g) # tl
           \<and> (\<forall>j<i. rmatch time_range_pattern (drop j (strip part)) Map.empty = [])
           \<and> part_slots part = [slot_of_match g]"
proof -
  from assms(2) obtain r0 g0 where "(r0, g0) \<in> set (rmatch time_range_pattern m Map.empty)"
    by (cases "rmatch time_range_pattern m Map.empty") auto
  from rmatch_append[OF this, of post]
  have here: "rmatch time_range_pattern (drop (length pre) (strip part)) Map.empty \<noteq> []"
    using assms(1) by auto
  have len: "length pre \<le> length (strip part)" using assms(1) by simp
  have "re_search time_range_pattern (strip part) \<noteq> None"
  proof
    assume "re_search time_range_pattern (strip part) = None"
    from re_search_NoneD[OF this len] here show False by simp
  qed
  then obtain g where g: "re_search time_range_pattern (strip part) = Some g" by blast
  from re_search_SomeD[OF g] obtain i rest tl where
    i: "rmatch time_range_pattern (drop i (strip part)) Map.empty = (rest, g) # tl"
       "\<forall>j<i. rmatch time_range_pattern (drop j (strip part)) Map.empty = []" by blast
  have "i \<le> length pre"
  proof (rule ccontr)
    assume "\<not> i \<le> length pre"
    then have "length pre < i" by simp
    with i(2) here show False by blast
  qed
  with i part_slots_match[OF g] show ?thesis by blast
qed

text \<open>
  Claim C10, as amended. The claim as it stands fails on a cell whose free text holds an
  absence keyword: \<open>Diana 1-3pm or 4-5pm\<close> holds \<open>NA\<close> and gives no interval, though
  its one part holds two time ranges. For a cell whose trimmed, uppercased text holds no
  absence keyword, \<open>parse_time_slot\<close> returns what the parts between commas and semicolons
  give, in order, and each part gives at most one interval. The pattern is searched for
  in the part, not matched against the whole of it: when the trimmed part holds a text
  that the pattern matches, with any text before and after it, the part gives exactly one
  interval, that of the match at the leftmost position of the part where the pattern
  matches, which is at or before that text. So a cell of one part that holds two time
  ranges gives the interval of the leftmost match and nothing else.
\<close>

theorem first_match_only:
  assumes "\<not> list_ex (\<lambda>k. contains_str k (upper (strip cell))) unavailable_keywords"
  shows "parse_time_slot (Str cell) = concat (map part_slots (re_split (upper (strip cell))))
     \<and> length (parse_time_slot (Str cell)) \<le> length (re_split (upper (strip cell)))
     \<and> (\<forall>part \<in> set (re_split (upper (strip cell))).
          length (part_slots part) \<le> 1
          \<and> (\<forall>pre m post.
                strip part = pre @ m @ post \<and> rmatch time_range_pattern m Map.empty \<noteq> [] \<longrightarrow>
                (\<exists>i rest g tl. i \<le> length pre
                   \<and> rmatch time_range_pattern (drop i (strip part)) Map.empty = (rest, g) # tl
                   \<and> (\<forall>j<i. rmatch time_range_pattern (drop j (strip part)) Map.empty = [])
                   \<and> part_slots part = [slot_of_match g])))
     \<and> ((\<forall>c \<in> set (upper (strip cell)). c \<noteq> CHR '','' \<and> c \<noteq> CHR '';'')
          \<and> upper (strip cell) = pre @ m @ post
          \<and> rmatch time_range_pattern m Map.empty \<noteq> [] \<longrightarrow>
          (\<exists>i rest g tl. i \<le> length pre
             \<and> rmatch time_range_pattern (drop i (upper (strip cell))) Map.empty = (rest, g) # tl
             \<and> (\<forall>j<i. rmatch time_range_pattern (drop j (upper (strip cell))) Map.empty = [])
             \<and> parse_time_slot (Str cell) = [slot_of_match g]))"
proof -
  let ?text = "upper (strip cell)"
  have 1: "parse_time_slot (Str cell) = concat (map part_slots (re_split ?text))"
    using assms by (rule parse_time_slot_parts)
  have 2: "length (parse_time_slot (Str cell)) \<le> length (re_split ?text)"
    unfolding 1 by (rule length_concat_le) (rule part_slots_at_most_one)
  have 3: "\<forall>part \<in> set (re_split ?text).
          length (part_slots part) \<le> 1
          \<and> (\<forall>pre m post.
                strip part = pre @ m @ post \<and> rmatch time_range_pattern m Map.empty \<noteq> [] \<longrightarrow>
                (\<exists>i rest g tl. i \<le> length pre
                   \<and> rmatch time_range_pattern (drop i (strip part)) Map.empty = (rest, g) # tl
                   \<and> (\<forall>j<i. rmatch time_range_pattern (drop j (strip part)) Map.empty = [])
                   \<and> part_slots part = [slot_of_match g]))"
    using part_slots_at_most_one part_first_match by blast
  have 4: "\<exists>i rest g tl. i \<le> length pre
             \<and> rmatch time_range_pattern (drop i ?text) Map.empty = (rest, g) # tl
             \<and> (\<forall>j<i. rmatch time_range_pattern (drop j ?text) Map.empty = [])
             \<and> parse_time_slot (Str cell) = [slot_of_match g]"
    if h: "(\<forall>c \<in> set ?text. c \<noteq> CHR '','' \<and> c \<noteq> CHR '';'')
          \<and> ?text = pre @ m @ post
          \<and> rmatch time_range_pattern m Map.empty \<noteq> []"
  proof -
    from h have s: "re_split ?text = [?text]" by (intro re_split_single) blast
    have p: "parse_time_slot (Str cell) = part_slots ?text" unfolding 1 s by simp
    from h have e: "?text = pre @ m @ post"
      and m: "rmatch time_range_pattern m Map.empty \<noteq> []" by blast+
    have "strip ?text = pre @ m @ post" by (subst strip_upper_strip) (rule e)
    from part_first_match[OF this m] show ?thesis
      unfolding p strip_upper_strip .
  qed
  from 1 2 3 4 show ?thesis by blast
qed

theorem first_match_only_counterexample:
  "parse_time_slot (Str ''Diana 1-3pm or 4-5pm'') = []
   \<and> re_split (upper (strip ''Diana 1-3pm or 4-5pm'')) = [''DIANA 1-3PM OR 4-5PM'']
   \<and> ''DIANA 1-3PM OR 4-5PM'' = ''DIANA '' @ ''1-3PM'' @ '' OR 4-5PM''
   \<and> rmatch time_range_pattern ''1-3PM'' Map.empty \<noteq> []
   \<and> part_slots ''DIANA 1-3PM OR 4-5PM'' = [(13, 15)]"
  by (simp add: eval_parse)

theorem first_match_only_witness:
  "\<not> list_ex (\<lambda>k. contains_str k (upper (strip '' call 1-3pm or 4-5pm ''))) unavailable_keywords
   \<and> re_split (upper (strip '' call 1-3pm or 4-5pm '')) = [''CALL 1-3PM OR 4-5PM'']
   \<and> upper (strip '' call 1-3pm or 4-5pm '') = ''CALL 1-3PM OR '' @ ''4-5PM'' @ []
   \<and> rmatch time_range_pattern ''4-5PM'' Map.empty \<noteq> []
   \<and> (\<exists>g. parse_time_slot (Str '' call 1-3pm or 4-5pm '') = [slot_of_match g])
   \<and> parse_time_slot (Str '' call 1-3pm or 4-5pm '') = [(13, 15)]
   \<and> \<not> list_ex (\<lambda>k. contains_str k (upper (strip ''1-3pm 4-5pm; 6-7pm'')))
         unavailable_keywords
   \<and> re_split (upper (strip ''1-3pm 4-5pm; 6-7pm'')) = [''1-3PM 4-5PM'', '' 6-7PM'']
   \<and> parse_time_slot (Str ''1-3pm 4-5pm; 6-7pm'')
       = concat (map part_slots (re_split (upper (strip ''1-3pm 4-5pm; 6-7pm''))))
   \<and> parse_time_slot (Str ''1-3pm 4-5pm; 6-7pm'') = [(13, 15), (18, 19)]"
proof -
  let ?c1 = "'' call 1-3pm or 4-5pm ''"
  let ?c2 = "''1-3pm 4-5pm; 6-7pm''"
  have k1: "\<not> list_ex (\<lambda>k. contains_str k (upper (strip ?c1))) unavailable_keywords"
    by (simp add: eval_parse)
  have k2: "\<not> list_ex (\<lambda>k. contains_str k (upper (strip ?c2))) unavailable_keywords"
    by (simp add: eval_parse)
  have u1: "upper (strip ?c1) = ''CALL 1-3PM OR '' @ ''4-5PM'' @ []"
    by (simp add: eval_parse)
  have s1: "re_split (upper (strip ?c1)) = [''CALL 1-3PM OR 4-5PM'']"
    by (simp add: eval_parse)
  have s2: "re_split (upper (strip ?c2)) = [''1-3PM 4-5PM'', '' 6-7PM'']"
    by (simp add: eval_parse)
  have n1: "\<forall>c \<in> set (upper (strip ?c1)). c \<noteq> CHR '','' \<and> c \<noteq> CHR '';''"
    by (simp add: eval_parse)
  have b: "rmatch time_range_pattern ''4-5PM'' Map.empty \<noteq> []"
    by (simp add: eval_parse)
  have v1: "parse_time_slot (Str ?c1) = [(13, 15)]" by (simp add: eval_parse)
  have v2: "parse_time_slot (Str ?c2) = [(13, 15), (18, 19)]" by (simp add: eval_parse)
  from first_match_only[OF k1, of "''CALL 1-3PM OR ''" "''4-5PM''" "[]"] n1 u1 b
  have g: "\<exists>g. parse_time_slot (Str ?c1) = [slot_of_match g]" by blast
  from first_match_only[OF k2]
  have p2: "parse_time_slot (Str ?c2) = concat (map part_slots (re_split (upper (strip ?c2))))"
    by blast
  show ?thesis by (intro conjI) (rule k1 s1 u1 b g v1 k2 s2 p2 v2)+
qed

subsection \<open>The range and the order of the hours\<close>

lemma digit_val_range: "isdigit c \<Longrightarrow> 0 \<le> digit_val c \<and> digit_val c \<le> 9"
  by (auto simp: isdigit_def digit_val_def)

lemma foldl_digits_nonneg:
  "list_all isdigit ds \<Longrightarrow> 0 \<le> a \<Longrightarrow> 0 \<le> foldl (\<lambda>a c. 10 * a + digit_val c) a ds"
proof (induction ds arbitrary: a)
  case Nil
  then show ?case by simp
next
  case (Cons c cs)
  from Cons.prems have "isdigit c" "list_all isdigit cs" by simp_all
  with Cons.prems(2) digit_val_range[of c] have "0 \<le> 10 * a + digit_val c" by simp
  from Cons.IH[OF \<open>list_all isdigit cs\<close> this] show ?case by simp
qed

lemma py_int_nonneg: "list_all isdigit ds \<Longrightarrow> 0 \<le> py_int ds"
  by (simp add: py_int_def foldl_digits_nonneg)

lemma spec_to_24h_bounds:
  "0 \<le> v \<Longrightarrow> 0 \<le> spec_to_24h p v \<and> (v \<le> 12 \<longrightarrow> spec_to_24h p v < 24)"
  by (cases p) (auto simp: spec_to_24h_def)

lemma spec_start_bounds:
  "0 \<le> v \<Longrightarrow> 0 \<le> spec_start sp ep v \<and> (v \<le> 12 \<longrightarrow> spec_start sp ep v < 24)"
  using spec_to_24h_bounds[of v]
  by (cases sp; cases ep) (auto simp: spec_start_def)

lemma part_slots_cases:
  "part_slots part = [] \<or>
   (\<exists>g d1 sp d2 ep. re_search time_range_pattern (strip part) = Some g
      \<and> list_all isdigit d1 \<and> list_all isdigit d2
      \<and> g 1 = Some d1 \<and> g 3 = Some d2
      \<and> part_slots part = [slot_of_match g] \<and> slot_of_match g = spec_slot d1 sp d2 ep)"
proof (cases "re_search time_range_pattern (strip part)")
  case None
  then show ?thesis by (simp add: part_slots_def Let_def)
next
  case (Some g)
  from re_search_SomeD[OF Some] obtain i rest tl where
    "rmatch time_range_pattern (drop i (strip part)) Map.empty = (rest, g) # tl" by blast
  then have "(rest, g) \<in> set (rmatch time_range_pattern (drop i (strip part)) Map.empty)"
    by simp
  from pattern_groups[OF this] obtain d1 sp d2 ep where
    d: "list_all isdigit d1" "list_all isdigit d2"
    and g: "g 1 = Some d1" "g 2 = map_option period_str sp" "g 3 = Some d2"
       "g 4 = Some (period_str ep)" by blast
  from slot_of_match_spec[OF g] part_slots_match[OF Some] Some d g(1,3)
  show ?thesis by blast
qed

lemma part_slots_nonneg:
  assumes "x \<in> set (part_slots part)"
  shows "0 \<le> fst x \<and> 0 \<le> snd x"
proof -
  from part_slots_cases[of part] assms obtain d1 sp d2 ep where
    d: "list_all isdigit d1" "list_all isdigit d2" and x: "x = spec_slot d1 sp d2 ep"
    by auto
  from d have "0 \<le> py_int d1" "0 \<le> py_int d2" by (simp_all add: py_int_nonneg)
  with spec_start_bounds[of "py_int d1" sp ep] spec_to_24h_bounds[of "py_int d2" ep]
  show ?thesis by (simp add: x spec_slot_def)
qed

lemma parse_time_slot_subset:
  "x \<in> set (parse_time_slot v) \<Longrightarrow> \<exists>part. x \<in> set (part_slots part)"
proof (cases v)
  case (Str cell)
  assume x: "x \<in> set (parse_time_slot v)"
  show ?thesis
  proof (cases "list_ex (\<lambda>k. contains_str k (upper (strip cell))) unavailable_keywords")
    case True
    with x Str show ?thesis by simp
  next
    case False
    from x parse_time_slot_parts[OF False] Str show ?thesis by auto
  qed
next
  case NotStr
  assume "x \<in> set (parse_time_slot v)"
  with NotStr show ?thesis by simp
qed

lemma spec_pairwise_positive: "x \<in> set (spec_pairwise acc l) \<Longrightarrow> fst x < snd x"
  by (simp add: spec_pairwise_def)

lemma foldl_spec_pairwise_positive:
  "ls \<noteq> [] \<Longrightarrow> x \<in> set (foldl spec_pairwise cur ls) \<Longrightarrow> fst x < snd x"
proof (induction ls arbitrary: x rule: rev_induct)
  case Nil
  then show ?case by simp
next
  case (snoc l ls)
  from snoc.prems(2) have "x \<in> set (spec_pairwise (foldl spec_pairwise cur ls) l)" by simp
  then show ?case by (rule spec_pairwise_positive)
qed

text \<open>
  Claim C6, as amended. \<open>parse_time_slot\<close> checks neither the range nor the order of the
  hours it returns: \<open>5PM-3PM\<close> gives \<open>(17, 15)\<close> and \<open>13-14PM\<close> gives \<open>(13, 26)\<close>. What holds
  is this. Both hours of every pair returned by \<open>parse_time_slot\<close> are integers that are not
  negative. When both hours of a matched part are written with values of at most 12, both
  hours of the pair lie in \<open>[0, 24)\<close>. An interval that comes out of an overlap of the
  intersector ends after its start: every interval that \<open>_intersect_all_slots\<close> returns
  for two or more lists has a positive duration.
\<close>

theorem parsed_hours_unchecked:
  "(\<forall>x \<in> set (parse_time_slot v). 0 \<le> fst x \<and> 0 \<le> snd x)
   \<and> (re_search time_range_pattern (strip part) = Some g
        \<and> py_int (the (g 1)) \<le> 12 \<and> py_int (the (g 3)) \<le> 12 \<longrightarrow>
        (\<forall>x \<in> set (part_slots part). 0 \<le> fst x \<and> fst x < 24 \<and> 0 \<le> snd x \<and> snd x < 24))
   \<and> (\<forall>x \<in> set (new_intersection a b). fst x < snd x)
   \<and> (\<forall>x \<in> set (intersect_all_slots (l1 # l2 # ls) d).
         fst x < snd x \<and> 0 < snd x - fst x)"
proof (intro conjI ballI impI)
  fix x assume "x \<in> set (parse_time_slot v)"
  from parse_time_slot_subset[OF this] part_slots_nonneg
  show "0 \<le> fst x" "0 \<le> snd x" by blast+
next
  fix x
  assume a: "re_search time_range_pattern (strip part) = Some g
        \<and> py_int (the (g 1)) \<le> 12 \<and> py_int (the (g 3)) \<le> 12"
    and x: "x \<in> set (part_slots part)"
  from part_slots_cases[of part] x a obtain d1 sp d2 ep where
    d: "list_all isdigit d1" "list_all isdigit d2" and g: "g 1 = Some d1" "g 3 = Some d2"
    and e: "x = spec_slot d1 sp d2 ep"
    by auto
  from d have n: "0 \<le> py_int d1" "0 \<le> py_int d2" by (simp_all add: py_int_nonneg)
  from a g have le: "py_int d1 \<le> 12" "py_int d2 \<le> 12" by simp_all
  from spec_start_bounds[OF n(1), of sp ep] spec_to_24h_bounds[OF n(2), of ep] le
  show "0 \<le> fst x" "fst x < 24" "0 \<le> snd x" "snd x < 24"
    by (simp_all add: e spec_slot_def)
next
  fix x assume "x \<in> set (new_intersection a b)"
  then show "fst x < snd x" by (simp add: new_intersection_spec spec_pairwise_positive)
next
  fix x assume "x \<in> set (intersect_all_slots (l1 # l2 # ls) d)"
  then have "x \<in> set (foldl spec_pairwise l1 (l2 # ls))"
    by (simp add: intersect_all_slots_def valid_slots_def intersect_loop_fold del: foldl_Cons)
  then have p: "fst x < snd x" by (rule foldl_spec_pairwise_positive[rotated]) simp
  then show "fst x < snd x" "0 < snd x - fst x" by simp_all
qed

theorem parsed_hours_unchecked_counterexample:
  "parse_time_slot (Str ''5PM-3PM'') = [(17, 15)] \<and> \<not> (17::int) < 15
   \<and> parse_time_slot (Str ''13-14PM'') = [(13, 26)] \<and> \<not> (26::int) < 24"
  by (simp add: eval_parse)

theorem parsed_hours_unchecked_witness:
  "(17, 15) \<in> set (parse_time_slot (Str ''5PM-3PM'')) \<and> (0::int) \<le> 17 \<and> (0::int) \<le> 15
   \<and> re_search time_range_pattern (strip ''12am - 11 pm'' ) = None
   \<and> re_search time_range_pattern (strip ''12AM - 11 PM'')
        = Some [1::nat \<mapsto> ''12'', 2 \<mapsto> ''AM'', 3 \<mapsto> ''11'', 4 \<mapsto> ''PM'']
   \<and> py_int ''12'' \<le> 12 \<and> py_int ''11'' \<le> 12
   \<and> part_slots ''12AM - 11 PM'' = [(0, 23)]
   \<and> new_intersection [(9, 12), (13, 17)] [(10, 14)] = [(10, 12), (13, 14)]
   \<and> intersect_all_slots [[(21, 12), (9, 12)], [(10, 14)], [(9, 17)]] 1 = [(10, 12)]"
proof -
  let ?g = "[1::nat \<mapsto> ''12'', 2 \<mapsto> ''AM'', 3 \<mapsto> ''11'', 4 \<mapsto> ''PM'']"
  have a: "parse_time_slot (Str ''5PM-3PM'') = [(17, 15)]" by (simp add: eval_parse)
  have b: "re_search time_range_pattern (strip ''12am - 11 pm'' ) = None"
    by (simp add: eval_parse)
  have c: "re_search time_range_pattern (strip ''12AM - 11 PM'') = Some ?g"
    by (simp add: eval_parse)
  have d: "py_int (the (?g 1)) \<le> 12" "py_int (the (?g 3)) \<le> 12"
    by (simp_all add: py_int_def digit_val_def)
  have e: "part_slots ''12AM - 11 PM'' = [(0, 23)]" by (simp add: eval_parse)
  have f: "new_intersection [(9, 12), (13, 17)] [(10, 14)] = [(10, 12), (13, 14)]"
    by (simp add: new_intersection_def)
  have h: "intersect_all_slots [[(21, 12), (9, 12)], [(10, 14)], [(9, 17)]] 1 = [(10, 12)]"
    by (simp add: intersect_all_slots_def valid_slots_def new_intersection_def)
  note t = parsed_hours_unchecked[of "Str ''5PM-3PM''" "''12AM - 11 PM''" ?g
      "[(9, 12), (13, 17)]" "[(10, 14)]" "[(21, 12), (9, 12)]" "[(10, 14)]" "[[(9, 17)]]" 1]
  from t a have "(0::int) \<le> 17 \<and> (0::int) \<le> 15" by simp
  with a b c d e f h show ?thesis by simp
qed

subsection \<open>The meeting time finder\<close>

lemma foldl_date_step:
  "foldl (date_step ps d) acc ds =
     (fst acc @ concat (map (perfect_for ps d) ds),
      snd acc @ concat (map (alternatives_for ps d) ds))"
  by (induction ds arbitrary: acc) (simp_all add: date_step_def)

lemma all_dates_set: "all_dates ps = set (concat (map (map fst \<circ> snd) ps))"
proof -
  have "foldl (\<lambda>dates member_schedule. dates \<union> set (map fst member_schedule)) A xs
          = A \<union> set (concat (map (map fst) xs))" for A xs
    by (induction xs arbitrary: A) auto
  then have "all_dates ps = {} \<union> set (concat (map (map fst) (map snd ps)))"
    unfolding all_dates_def .
  also have "\<dots> = set (concat (map (map fst \<circ> snd) ps))" by simp
  finally show ?thesis .
qed

lemma finite_all_dates: "finite (all_dates ps)"
  by (simp add: all_dates_set)

lemma find_best_perfect:
  "perfect_slots (find_best_meeting_time self d) = perfect_candidates (parsed_schedules self) d"
  by (simp add: find_best_meeting_time_def foldl_date_step perfect_candidates_def
      sorted_dates_def all_dates_set Let_def)

lemma find_best_alternatives:
  "best_alternative_slots (find_best_meeting_time self d) =
     take 10 (sort_key (\<lambda>x. - coverage x) (alternative_candidates (parsed_schedules self) d))"
  by (simp add: find_best_meeting_time_def foldl_date_step alternative_candidates_def
      sorted_dates_def all_dates_set Let_def)

lemma perfect_for_date: "x \<in> set (perfect_for ps d dt) \<Longrightarrow> date x = dt"
  by (auto simp: perfect_for_def Let_def split: if_splits)

lemma alternatives_for_date: "x \<in> set (alternatives_for ps d dt) \<Longrightarrow> date x = dt"
  by (auto simp: alternatives_for_def Let_def split: if_splits)

lemma sorted_concat_dates:
  assumes "\<And>dt x. x \<in> set (f dt) \<Longrightarrow> key x = dt"
  shows "sorted ds \<Longrightarrow> sorted (map key (concat (map f ds)))"
proof (induction ds)
  case Nil
  show ?case by simp
next
  case (Cons a ds)
  have "\<forall>x \<in> set (f a). \<forall>y \<in> set (concat (map f ds)). key x \<le> key y"
  proof (intro ballI)
    fix x y assume x: "x \<in> set (f a)" and "y \<in> set (concat (map f ds))"
    then obtain b where b: "b \<in> set ds" "y \<in> set (f b)" by auto
    from Cons.prems b(1) have "a \<le> b" by simp
    with assms[OF x] assms[OF b(2)] show "key x \<le> key y" by simp
  qed
  moreover have "sorted (map key (f a))"
  proof -
    have "map key (f a) = map (\<lambda>_. a) (f a)"
      by (rule map_cong) (simp_all add: assms)
    then show ?thesis by (simp add: map_replicate_const)
  qed
  moreover from Cons have "sorted (map key (concat (map f ds)))" by simp
  ultimately show ?case by (auto simp: sorted_append)
qed


lemma filter_take_prefix: "prefix (filter P (take n xs)) (filter P xs)"
proof -
  have "filter P xs = filter P (take n xs) @ filter P (drop n xs)"
    by (simp flip: filter_append)
  then show ?thesis by (rule prefixI)
qed

lemma top_of_stable_sort:
  fixes f :: "'a \<Rightarrow> rat"
  defines "S xs \<equiv> sort_key (\<lambda>x. - f x) xs"
  shows "sorted_wrt (\<lambda>a b. f a \<ge> f b) (take n (S xs))"
    and "prefix (filter (\<lambda>x. f x = k) (take n (S xs))) (filter (\<lambda>x. f x = k) xs)"
    and "mset (take n (S xs) @ drop n (S xs)) = mset xs"
    and "\<forall>x \<in> set (take n (S xs)). \<forall>y \<in> set (drop n (S xs)). f y \<le> f x"
proof -
  have "sorted (map (\<lambda>x. - f x) (S xs))" unfolding S_def by (rule sorted_sort_key)
  then have sw: "sorted_wrt (\<lambda>a b. f a \<ge> f b) (S xs)" by (simp add: sorted_map)
  then show "sorted_wrt (\<lambda>a b. f a \<ge> f b) (take n (S xs))" by (rule sorted_wrt_take)
  have "filter (\<lambda>x. - f x = - k) (S xs) = filter (\<lambda>x. - f x = - k) xs"
    unfolding S_def by (rule sort_key_stable)
  then have "filter (\<lambda>x. f x = k) (S xs) = filter (\<lambda>x. f x = k) xs" by simp
  with filter_take_prefix[of "\<lambda>x. f x = k" n "S xs"]
  show "prefix (filter (\<lambda>x. f x = k) (take n (S xs))) (filter (\<lambda>x. f x = k) xs)" by simp
  show "mset (take n (S xs) @ drop n (S xs)) = mset xs" by (simp add: S_def)
  from sw have "sorted_wrt (\<lambda>a b. f a \<ge> f b) (take n (S xs) @ drop n (S xs))" by simp
  then show "\<forall>x \<in> set (take n (S xs)). \<forall>y \<in> set (drop n (S xs)). f y \<le> f x"
    unfolding sorted_wrt_append by blast
qed

lemma sorted_dates_props:
  "sorted (sorted_dates ps)" "distinct (sorted_dates ps)" "set (sorted_dates ps) = all_dates ps"
  by (simp_all add: sorted_dates_def finite_all_dates)

text \<open>
  Claim C3. In the result of \<open>find_best_meeting_time\<close> the list \<open>best_alternative_slots\<close>
  is in descending order of coverage and has at most 10 entries. The sort is stable: the
  entries of one coverage are an initial part of the candidates of that coverage in the
  order of their discovery, date by date. The entries are candidates, and no candidate
  left out has a greater coverage than one kept. \<open>perfect_slots\<close> is the list of the
  perfect candidates in the order of the loop over the sorted date labels, unchanged.
\<close>

theorem best_alternatives_sorted:
  "sorted_wrt (\<lambda>a b. coverage a \<ge> coverage b)
      (best_alternative_slots (find_best_meeting_time self d))
   \<and> length (best_alternative_slots (find_best_meeting_time self d)) \<le> 10
   \<and> (\<forall>k. prefix
         (filter (\<lambda>x. coverage x = k) (best_alternative_slots (find_best_meeting_time self d)))
         (filter (\<lambda>x. coverage x = k) (alternative_candidates (parsed_schedules self) d)))
   \<and> (\<exists>others.
         mset (best_alternative_slots (find_best_meeting_time self d) @ others)
           = mset (alternative_candidates (parsed_schedules self) d)
         \<and> (\<forall>x \<in> set (best_alternative_slots (find_best_meeting_time self d)).
              \<forall>y \<in> set others. coverage y \<le> coverage x))
   \<and> perfect_slots (find_best_meeting_time self d)
        = perfect_candidates (parsed_schedules self) d
   \<and> sorted (map date (perfect_slots (find_best_meeting_time self d)))
   \<and> sorted (sorted_dates (parsed_schedules self))
   \<and> set (sorted_dates (parsed_schedules self)) = all_dates (parsed_schedules self)"
proof -
  let ?alts = "alternative_candidates (parsed_schedules self) d"
  let ?S = "sort_key (\<lambda>x. - coverage x) ?alts"
  note b = find_best_alternatives[of self d]
  have 1: "sorted_wrt (\<lambda>a b. coverage a \<ge> coverage b)
      (best_alternative_slots (find_best_meeting_time self d))"
    unfolding b by (rule top_of_stable_sort(1))
  have 2: "length (best_alternative_slots (find_best_meeting_time self d)) \<le> 10"
    unfolding b by simp
  have 3: "\<forall>k. prefix
         (filter (\<lambda>x. coverage x = k) (best_alternative_slots (find_best_meeting_time self d)))
         (filter (\<lambda>x. coverage x = k) ?alts)"
    unfolding b by (intro allI) (rule top_of_stable_sort(2))
  have 4: "\<exists>others.
         mset (best_alternative_slots (find_best_meeting_time self d) @ others) = mset ?alts
         \<and> (\<forall>x \<in> set (best_alternative_slots (find_best_meeting_time self d)).
              \<forall>y \<in> set others. coverage y \<le> coverage x)"
    unfolding b
    using top_of_stable_sort(3)[of 10 coverage ?alts] top_of_stable_sort(4)[of 10 coverage ?alts]
    by blast
  have 5: "perfect_slots (find_best_meeting_time self d)
        = perfect_candidates (parsed_schedules self) d" by (rule find_best_perfect)
  have 6: "sorted (map date (perfect_slots (find_best_meeting_time self d)))"
    unfolding 5 perfect_candidates_def
    by (rule sorted_concat_dates) (simp_all add: perfect_for_date sorted_dates_props)
  from 1 2 3 4 5 6 sorted_dates_props(1,3)[of "parsed_schedules self"]
  show ?thesis by blast
qed


lemma sorted_dates_eval:
  "sorted_list_of_set (all_dates ps) = sort (remdups (concat (map (map fst \<circ> snd) ps)))"
  by (simp only: all_dates_set sorted_list_of_set_sort_remdups)

lemmas eval_find =
  find_best_meeting_time_def date_step_def perfect_for_def alternatives_for_def
  available_on_def find_common_slots_def intersect_all_slots_def valid_slots_def
  new_intersection_def sorted_dates_eval Let_def
  alternative_candidates_def perfect_candidates_def sorted_dates_def

theorem best_alternatives_sorted_witness:
  "map (\<lambda>x. (date x, start_time x, end_time x, coverage x))
     (alternative_candidates
        [(''Alice'', [(''Fri'', [(0, 1), (2, 3), (4, 5), (6, 7), (8, 9), (10, 11), (12, 13),
                                 (14, 15), (16, 17), (18, 19), (20, 21)]),
                      (''Mon'', [(9, 12)])]),
         (''Bob'', [(''Fri'', [(0, 23)]), (''Mon'', [(10, 14)])]),
         (''Carol'', [(''Fri'', []), (''Mon'', [(9, 17)])])] 1)
   = [(''Fri'', 0, 1, 2 / 3), (''Fri'', 2, 3, 2 / 3), (''Fri'', 4, 5, 2 / 3),
      (''Fri'', 6, 7, 2 / 3), (''Fri'', 8, 9, 2 / 3), (''Fri'', 10, 11, 2 / 3),
      (''Fri'', 12, 13, 2 / 3), (''Fri'', 14, 15, 2 / 3), (''Fri'', 16, 17, 2 / 3),
      (''Fri'', 18, 19, 2 / 3), (''Fri'', 20, 21, 2 / 3), (''Mon'', 10, 12, 1)]
   \<and> map (\<lambda>x. (date x, start_time x, end_time x, coverage x))
     (best_alternative_slots (find_best_meeting_time
        \<lparr>availability_data = None,
         parsed_schedules =
        [(''Alice'', [(''Fri'', [(0, 1), (2, 3), (4, 5), (6, 7), (8, 9), (10, 11), (12, 13),
                                 (14, 15), (16, 17), (18, 19), (20, 21)]),
                      (''Mon'', [(9, 12)])]),
         (''Bob'', [(''Fri'', [(0, 23)]), (''Mon'', [(10, 14)])]),
         (''Carol'', [(''Fri'', []), (''Mon'', [(9, 17)])])]\<rparr> 1))
   = [(''Mon'', 10, 12, 1),
      (''Fri'', 0, 1, 2 / 3), (''Fri'', 2, 3, 2 / 3), (''Fri'', 4, 5, 2 / 3),
      (''Fri'', 6, 7, 2 / 3), (''Fri'', 8, 9, 2 / 3), (''Fri'', 10, 11, 2 / 3),
      (''Fri'', 12, 13, 2 / 3), (''Fri'', 14, 15, 2 / 3), (''Fri'', 16, 17, 2 / 3)]
   \<and> map (\<lambda>x. (date x, start_time x, end_time x))
     (perfect_slots (find_best_meeting_time
        \<lparr>availability_data = None,
         parsed_schedules =
        [(''Alice'', [(''Fri'', [(0, 1), (2, 3), (4, 5), (6, 7), (8, 9), (10, 11), (12, 13),
                                 (14, 15), (16, 17), (18, 19), (20, 21)]),
                      (''Mon'', [(9, 12)])]),
         (''Bob'', [(''Fri'', [(0, 23)]), (''Mon'', [(10, 14)])]),
         (''Carol'', [(''Fri'', []), (''Mon'', [(9, 17)])])]\<rparr> 1))
   = [(''Mon'', 10, 12)]
   \<and> (\<exists>others. others \<noteq> []
        \<and> mset (best_alternative_slots (find_best_meeting_time
        \<lparr>availability_data = None,
         parsed_schedules =
        [(''Alice'', [(''Fri'', [(0, 1), (2, 3), (4, 5), (6, 7), (8, 9), (10, 11), (12, 13),
                                 (14, 15), (16, 17), (18, 19), (20, 21)]),
                      (''Mon'', [(9, 12)])]),
         (''Bob'', [(''Fri'', [(0, 23)]), (''Mon'', [(10, 14)])]),
         (''Carol'', [(''Fri'', []), (''Mon'', [(9, 17)])])]\<rparr> 1) @ others)
          = mset (alternative_candidates
        [(''Alice'', [(''Fri'', [(0, 1), (2, 3), (4, 5), (6, 7), (8, 9), (10, 11), (12, 13),
                                 (14, 15), (16, 17), (18, 19), (20, 21)]),
                      (''Mon'', [(9, 12)])]),
         (''Bob'', [(''Fri'', [(0, 23)]), (''Mon'', [(10, 14)])]),
         (''Carol'', [(''Fri'', []), (''Mon'', [(9, 17)])])] 1))"
proof -
  let ?idx = "[(''Alice'', [(''Fri'', [(0, 1), (2, 3), (4, 5), (6, 7), (8, 9), (10, 11), (12, 13),
                                 (14, 15), (16, 17), (18, 19), (20::int, 21::int)]),
                      (''Mon'', [(9, 12)])]),
         (''Bob'', [(''Fri'', [(0, 23)]), (''Mon'', [(10, 14)])]),
         (''Carol'', [(''Fri'', []), (''Mon'', [(9, 17)])])]"
  let ?self = "\<lparr>availability_data = None, parsed_schedules = ?idx\<rparr>"
  let ?B = "best_alternative_slots (find_best_meeting_time ?self 1)"
  have a: "map (\<lambda>x. (date x, start_time x, end_time x, coverage x))
     (alternative_candidates ?idx 1)
   = [(''Fri'', 0, 1, 2 / 3), (''Fri'', 2, 3, 2 / 3), (''Fri'', 4, 5, 2 / 3),
      (''Fri'', 6, 7, 2 / 3), (''Fri'', 8, 9, 2 / 3), (''Fri'', 10, 11, 2 / 3),
      (''Fri'', 12, 13, 2 / 3), (''Fri'', 14, 15, 2 / 3), (''Fri'', 16, 17, 2 / 3),
      (''Fri'', 18, 19, 2 / 3), (''Fri'', 20, 21, 2 / 3), (''Mon'', 10, 12, 1)]"
    by (simp add: eval_find)
  have b: "map (\<lambda>x. (date x, start_time x, end_time x, coverage x)) ?B
   = [(''Mon'', 10, 12, 1),
      (''Fri'', 0, 1, 2 / 3), (''Fri'', 2, 3, 2 / 3), (''Fri'', 4, 5, 2 / 3),
      (''Fri'', 6, 7, 2 / 3), (''Fri'', 8, 9, 2 / 3), (''Fri'', 10, 11, 2 / 3),
      (''Fri'', 12, 13, 2 / 3), (''Fri'', 14, 15, 2 / 3), (''Fri'', 16, 17, 2 / 3)]"
    by (simp add: eval_find)
  have c: "map (\<lambda>x. (date x, start_time x, end_time x))
     (perfect_slots (find_best_meeting_time ?self 1)) = [(''Mon'', 10, 12)]"
    by (simp add: eval_find)
  from best_alternatives_sorted[of ?self 1] obtain others where
    o: "mset (?B @ others) = mset (alternative_candidates (parsed_schedules ?self) 1)"
    by blast
  then have o': "mset (?B @ others) = mset (alternative_candidates ?idx 1)"
    by (simp only: scheduler.select_convs)
  have "length (?B @ others) = length (alternative_candidates ?idx 1)"
    using o' by (rule mset_eq_length)
  moreover have "length (alternative_candidates ?idx 1) = 12"
    using arg_cong[OF a, of length] by simp
  moreover have "length ?B = 10" using arg_cong[OF b, of length] by simp
  ultimately have "others \<noteq> []" by auto
  with o' have d: "\<exists>others. others \<noteq> [] \<and> mset (?B @ others) = mset (alternative_candidates ?idx 1)"
    by blast
  show ?thesis by (intro conjI) (rule a b c d)+
qed

subsection \<open>A date with one participant available\<close>

lemma perfect_candidates_date:
  "x \<in> set (perfect_candidates ps d) \<Longrightarrow> x \<in> set (perfect_for ps d (date x))"
  by (auto simp: perfect_candidates_def dest: perfect_for_date)

lemma alternative_candidates_date:
  "x \<in> set (alternative_candidates ps d) \<Longrightarrow> x \<in> set (alternatives_for ps d (date x))"
  by (auto simp: alternative_candidates_def dest: alternatives_for_date)

lemma best_alternatives_subset:
  "x \<in> set (best_alternative_slots (find_best_meeting_time self d))
     \<Longrightarrow> x \<in> set (alternative_candidates (parsed_schedules self) d)"
  unfolding find_best_alternatives by (auto dest: in_set_takeD)

lemma single_available:
  assumes "length (available_on ps dt) = 1"
  shows "alternatives_for ps d dt = []"
    and "length ps \<noteq> 1 \<Longrightarrow> perfect_for ps d dt = []"
    and "length ps = 1 \<Longrightarrow>
           map (\<lambda>x. (date x, start_time x, end_time x)) (perfect_for ps d dt)
             = map (\<lambda>s. (dt, fst s, snd s)) (valid_slots (snd (hd (available_on ps dt))) d)"
proof -
  from assms show "alternatives_for ps d dt = []" by (simp add: alternatives_for_def Let_def)
  from assms show "length ps \<noteq> 1 \<Longrightarrow> perfect_for ps d dt = []"
    by (simp add: perfect_for_def Let_def)
  from assms obtain m sl where a: "available_on ps dt = [(m, sl)]"
    by (cases "available_on ps dt") auto
  show "map (\<lambda>x. (date x, start_time x, end_time x)) (perfect_for ps d dt)
             = map (\<lambda>s. (dt, fst s, snd s)) (valid_slots (snd (hd (available_on ps dt))) d)"
    if "length ps = 1"
    using that
    by (simp add: perfect_for_def a find_common_slots_def intersect_all_slots_def comp_def Let_def)
qed

text \<open>
  Claim C4, as amended. A date on which exactly one participant is available gives no
  candidate to \<open>best_alternative_slots\<close>, and none to \<open>perfect_slots\<close> when the index does
  not consist of that one participant. When the index has one participant only, every
  participant is available on the date, and the date gives to \<open>perfect_slots\<close> the
  intervals of that participant that are long enough.
\<close>

theorem single_member_date:
  assumes "length (available_on (parsed_schedules self) dt) = 1"
  shows "alternatives_for (parsed_schedules self) d dt = []
     \<and> (\<forall>x \<in> set (best_alternative_slots (find_best_meeting_time self d)). date x \<noteq> dt)
     \<and> (length (parsed_schedules self) \<noteq> 1 \<longrightarrow>
          perfect_for (parsed_schedules self) d dt = []
          \<and> (\<forall>x \<in> set (perfect_slots (find_best_meeting_time self d)). date x \<noteq> dt))
     \<and> (length (parsed_schedules self) = 1 \<longrightarrow>
          map (\<lambda>x. (date x, start_time x, end_time x)) (perfect_for (parsed_schedules self) d dt)
            = map (\<lambda>s. (dt, fst s, snd s))
                (valid_slots (snd (hd (available_on (parsed_schedules self) dt))) d))"
proof (intro conjI impI ballI)
  show "alternatives_for (parsed_schedules self) d dt = []"
    using assms by (rule single_available(1))
next
  fix x assume x: "x \<in> set (best_alternative_slots (find_best_meeting_time self d))"
  show "date x \<noteq> dt"
  proof
    assume "date x = dt"
    with alternative_candidates_date[OF best_alternatives_subset[OF x]]
      single_available(1)[OF assms, of d]
    show False by simp
  qed
next
  assume "length (parsed_schedules self) \<noteq> 1"
  then show "perfect_for (parsed_schedules self) d dt = []"
    by (rule single_available(2)[OF assms])
next
  fix x
  assume n: "length (parsed_schedules self) \<noteq> 1"
    and x: "x \<in> set (perfect_slots (find_best_meeting_time self d))"
  show "date x \<noteq> dt"
  proof
    assume "date x = dt"
    with perfect_candidates_date[of x "parsed_schedules self" d] x
      single_available(2)[OF assms n, of d]
    show False by (simp add: find_best_perfect)
  qed
next
  assume "length (parsed_schedules self) = 1"
  then show "map (\<lambda>x. (date x, start_time x, end_time x)) (perfect_for (parsed_schedules self) d dt)
            = map (\<lambda>s. (dt, fst s, snd s))
                (valid_slots (snd (hd (available_on (parsed_schedules self) dt))) d)"
    by (rule single_available(3)[OF assms])
qed

theorem single_member_date_counterexample:
  "length (available_on [(''Alice'', [(''Mon'', [(9, 12)])])] ''Mon'') = 1
   \<and> perfect_slots (find_best_meeting_time
        \<lparr>availability_data = None,
         parsed_schedules = [(''Alice'', [(''Mon'', [(9, 12)])])]\<rparr> 1)
      = [\<lparr>date = ''Mon'', start_time = 9, end_time = 12,
          members_available = [''Alice''], members_unavailable = []\<rparr>]"
  by (simp add: eval_find)

theorem single_member_date_witness:
  "length (available_on (parsed_schedules
      \<lparr>availability_data = None,
       parsed_schedules =
         [(''Alice'', [(''Mon'', [(9, 12)]), (''Tue'', [(9, 12)])]),
          (''Bob'', [(''Mon'', []), (''Tue'', [(10, 14)])])]\<rparr>) ''Mon'') = 1
   \<and> find_best_meeting_time
      \<lparr>availability_data = None,
       parsed_schedules =
         [(''Alice'', [(''Mon'', [(9, 12)]), (''Tue'', [(9, 12)])]),
          (''Bob'', [(''Mon'', []), (''Tue'', [(10, 14)])])]\<rparr> 1
      = \<lparr>perfect_slots =
           [\<lparr>date = ''Tue'', start_time = 10, end_time = 12,
             members_available = [''Alice'', ''Bob''], members_unavailable = []\<rparr>],
         best_alternative_slots =
           [\<lparr>date = ''Tue'', start_time = 10, end_time = 12,
             members_available = [''Alice'', ''Bob''], members_unavailable = [],
             coverage = 1\<rparr>]\<rparr>
   \<and> alternatives_for
         [(''Alice'', [(''Mon'', [(9, 12)]), (''Tue'', [(9, 12)])]),
          (''Bob'', [(''Mon'', []), (''Tue'', [(10, 14)])])] 1 ''Mon'' = []
   \<and> perfect_for
         [(''Alice'', [(''Mon'', [(9, 12)]), (''Tue'', [(9, 12)])]),
          (''Bob'', [(''Mon'', []), (''Tue'', [(10, 14)])])] 1 ''Mon'' = []
   \<and> length (available_on (parsed_schedules
        \<lparr>availability_data = None,
         parsed_schedules = [(''Alice'', [(''Mon'', [(9, 12), (13, 13)])])]\<rparr>) ''Mon'') = 1
   \<and> map (\<lambda>x. (date x, start_time x, end_time x))
        (perfect_for [(''Alice'', [(''Mon'', [(9, 12), (13, 13)])])] 1 ''Mon'')
      = [(''Mon'', 9, 12)]"
proof -
  let ?two = "\<lparr>availability_data = None,
       parsed_schedules =
         [(''Alice'', [(''Mon'', [(9, 12)]), (''Tue'', [(9, 12)])]),
          (''Bob'', [(''Mon'', []), (''Tue'', [(10, 14)])])]\<rparr>"
  let ?one = "\<lparr>availability_data = None,
         parsed_schedules = [(''Alice'', [(''Mon'', [(9, 12), (13, 13)])])]\<rparr>"
  have a: "length (available_on (parsed_schedules ?two) ''Mon'') = 1"
    by (simp add: available_on_def)
  have b: "length (available_on (parsed_schedules ?one) ''Mon'') = 1"
    by (simp add: available_on_def)
  have c: "find_best_meeting_time ?two 1
      = \<lparr>perfect_slots =
           [\<lparr>date = ''Tue'', start_time = 10, end_time = 12,
             members_available = [''Alice'', ''Bob''], members_unavailable = []\<rparr>],
         best_alternative_slots =
           [\<lparr>date = ''Tue'', start_time = 10, end_time = 12,
             members_available = [''Alice'', ''Bob''], members_unavailable = [],
             coverage = 1\<rparr>]\<rparr>"
    by (simp add: eval_find)
  from single_member_date[OF a, of 1]
  have d: "alternatives_for (parsed_schedules ?two) 1 ''Mon'' = []"
    "perfect_for (parsed_schedules ?two) 1 ''Mon'' = []" by simp_all
  from single_member_date[OF b, of 1]
  have "map (\<lambda>x. (date x, start_time x, end_time x))
          (perfect_for (parsed_schedules ?one) 1 ''Mon'')
        = map (\<lambda>s. (''Mon'', fst s, snd s))
            (valid_slots (snd (hd (available_on (parsed_schedules ?one) ''Mon''))) 1)"
    by simp
  then have e: "map (\<lambda>x. (date x, start_time x, end_time x))
          (perfect_for (parsed_schedules ?one) 1 ''Mon'') = [(''Mon'', 9, 12)]"
    by (simp add: available_on_def valid_slots_def)
  from a b c d e show ?thesis by simp
qed

subsection \<open>Perfect slots among the alternatives\<close>

lemma dict_set_keys:
  "map fst (dict_set k v d) = (if k \<in> set (map fst d) then map fst d else map fst d @ [k])"
proof (induction d)
  case Nil
  show ?case by simp
next
  case (Cons p d)
  obtain k' v' where p: "p = (k', v')" by (cases p)
  show ?case
  proof (cases "k' = k")
    case True
    then show ?thesis by (simp add: p)
  next
    case False
    with Cons show ?thesis by (simp add: p)
  qed
qed

lemma dict_set_props:
  "distinct (map fst d) \<Longrightarrow> distinct (map fst (dict_set k v d))"
  "set (map fst (dict_set k v d)) = insert k (set (map fst d))"
  "length (dict_set k v d) \<le> Suc (length d)"
proof -
  show "distinct (map fst d) \<Longrightarrow> distinct (map fst (dict_set k v d))"
    by (simp add: dict_set_keys)
  show "set (map fst (dict_set k v d)) = insert k (set (map fst d))"
    by (auto simp: dict_set_keys)
  have "length (map fst (dict_set k v d)) \<le> Suc (length d)"
    unfolding dict_set_keys by simp
  then show "length (dict_set k v d) \<le> Suc (length d)" by simp
qed

lemma available_foldl:
  fixes dt :: string
  defines "step \<equiv> (\<lambda>members_avail (member, sched).
              (case map_of sched dt of
                 Some sl \<Rightarrow> if sl \<noteq> [] then dict_set member sl members_avail else members_avail
               | None \<Rightarrow> members_avail))"
  assumes "distinct (map fst acc)"
  shows "distinct (map fst (foldl step acc ps))
     \<and> set (map fst (foldl step acc ps)) \<subseteq> set (map fst acc) \<union> set (map fst ps)
     \<and> length (foldl step acc ps) \<le> length acc + length ps"
  using assms(2)
proof (induction ps arbitrary: acc)
  case Nil
  then show ?case by simp
next
  case (Cons p ps)
  obtain member sched where p: "p = (member, sched)" by (cases p)
  have s: "step acc p = acc \<or> (\<exists>sl. step acc p = dict_set member sl acc)"
    by (auto simp: step_def p split: option.splits)
  have d: "distinct (map fst (step acc p))"
    and k: "set (map fst (step acc p)) \<subseteq> insert member (set (map fst acc))"
    and l: "length (step acc p) \<le> Suc (length acc)"
  proof -
    from s show "distinct (map fst (step acc p))"
      using Cons.prems dict_set_props(1)[of acc member] by auto
    from s show "set (map fst (step acc p)) \<subseteq> insert member (set (map fst acc))"
    proof (elim disjE exE)
      assume "step acc p = acc"
      then show ?thesis by (simp add: subset_insertI)
    next
      fix sl assume e: "step acc p = dict_set member sl acc"
      show ?thesis unfolding e dict_set_props(2) by (rule subset_refl)
    qed
    from s show "length (step acc p) \<le> Suc (length acc)"
      using dict_set_props(3)[of member _ acc] by auto
  qed
  from Cons.IH[OF d] have
    i1: "distinct (map fst (foldl step (step acc p) ps))"
    and i2: "set (map fst (foldl step (step acc p) ps))
               \<subseteq> set (map fst (step acc p)) \<union> set (map fst ps)"
    and i3: "length (foldl step (step acc p) ps) \<le> length (step acc p) + length ps"
    by blast+
  from i2 k have "set (map fst (foldl step (step acc p) ps))
      \<subseteq> set (map fst acc) \<union> set (map fst (p # ps))"
    unfolding p by (simp only: list.map fst_conv list.set) blast
  moreover from i3 l have "length (foldl step (step acc p) ps) \<le> length acc + length (p # ps)"
    by simp
  ultimately show ?case using i1 by simp
qed

lemma available_on_props:
  "distinct (map fst (available_on ps dt))"
  "set (map fst (available_on ps dt)) \<subseteq> set (map fst ps)"
  "length (available_on ps dt) \<le> length ps"
  using available_foldl[of "[]" dt ps] by (simp_all add: available_on_def)

lemma all_available:
  assumes "length (available_on ps dt) = length ps"
  shows "filter (\<lambda>m. m \<notin> set (map fst (available_on ps dt))) (map fst ps) = []"
proof -
  let ?A = "map fst (available_on ps dt)"
  have "card (set (map fst ps)) \<le> length ps" using card_length[of "map fst ps"] by simp
  also have "\<dots> = card (set ?A)"
    using distinct_card[OF available_on_props(1)[of ps dt]] assms by simp
  finally have "set ?A = set (map fst ps)"
    using available_on_props(2)[of ps dt] by (intro card_seteq) simp_all
  then show ?thesis by (simp add: filter_empty_conv)
qed

lemma alternatives_coverage_le:
  assumes "x \<in> set (alternatives_for ps d dt)"
  shows "coverage x \<le> 1"
proof -
  from assms have c: "coverage x = of_nat (length (available_on ps dt)) / of_nat (length ps)"
    and n: "2 \<le> length (available_on ps dt)"
    by (auto simp: alternatives_for_def Let_def split: if_splits)
  from n available_on_props(3)[of ps dt] have "0 < length ps" by linarith
  with available_on_props(3)[of ps dt] show ?thesis by (simp add: c)
qed

lemma perfect_among_alternatives:
  assumes "2 \<le> length ps"
  shows "map without_coverage (filter (\<lambda>x. coverage x = 1) (alternatives_for ps d dt))
           = perfect_for ps d dt"
proof (cases "length (available_on ps dt) = length ps")
  case True
  with assms have n: "2 \<le> length (available_on ps dt)" "available_on ps dt \<noteq> []"
    by auto
  have one: "(of_nat (length ps) :: rat) / of_nat (length ps) = 1" using assms by auto
  from assms have ne: "ps \<noteq> []" by auto
  show ?thesis
    using n ne all_available[OF True]
    by (simp add: alternatives_for_def perfect_for_def Let_def True one without_coverage_def
        filter_map comp_def del: set_map)
next
  case False
  have ne: "(of_nat (length (available_on ps dt)) :: rat) / of_nat (length ps) \<noteq> 1"
    using False assms by auto
  show ?thesis
    using False ne
    by (simp add: alternatives_for_def perfect_for_def Let_def filter_map comp_def)
qed


lemma sorted_least_first:
  fixes f :: "'a \<Rightarrow> rat"
  shows "sorted (map f S) \<Longrightarrow> \<forall>x \<in> set S. m \<le> f x \<Longrightarrow>
     S = filter (\<lambda>x. f x = m) S @ filter (\<lambda>x. f x \<noteq> m) S"
proof (induction S)
  case Nil
  show ?case by simp
next
  case (Cons x S)
  from Cons.prems have s: "sorted (map f S)" and b: "\<forall>y \<in> set S. m \<le> f y"
    and x: "\<forall>y \<in> set S. f x \<le> f y" by simp_all
  show ?case
  proof (cases "f x = m")
    case True
    with Cons.IH[OF s b] show ?thesis by simp
  next
    case False
    with Cons.prems(2) have "m < f x" by auto
    with x have "\<forall>y \<in> set S. f y \<noteq> m" by auto
    then have "filter (\<lambda>y. f y = m) S = []" "filter (\<lambda>y. f y \<noteq> m) S = S"
      by (simp_all add: filter_empty_conv filter_id_conv)
    with False show ?thesis by simp
  qed
qed

lemma full_coverage_first:
  assumes "\<forall>x \<in> set alts. coverage x \<le> 1"
  shows "\<exists>others. sort_key (\<lambda>x. - coverage x) alts = filter (\<lambda>x. coverage x = 1) alts @ others"
proof -
  let ?f = "\<lambda>x. - coverage x"
  let ?S = "sort_key ?f alts"
  have "sorted (map ?f ?S)" by (rule sorted_sort_key)
  moreover have "\<forall>x \<in> set ?S. - 1 \<le> ?f x" using assms by simp
  ultimately have "?S = filter (\<lambda>x. ?f x = - 1) ?S @ filter (\<lambda>x. ?f x \<noteq> - 1) ?S"
    by (rule sorted_least_first)
  moreover have "filter (\<lambda>x. ?f x = - 1) ?S = filter (\<lambda>x. ?f x = - 1) alts"
    by (rule sort_key_stable)
  ultimately have "?S = filter (\<lambda>x. coverage x = 1) alts @ filter (\<lambda>x. ?f x \<noteq> - 1) ?S"
    by simp
  then show ?thesis by blast
qed

lemma perfect_candidates_alternatives:
  assumes "2 \<le> length ps"
  shows "map without_coverage (filter (\<lambda>x. coverage x = 1) (alternative_candidates ps d))
           = perfect_candidates ps d"
proof -
  have "map without_coverage (filter (\<lambda>x. coverage x = 1) (concat (map (alternatives_for ps d) ds)))
          = concat (map (perfect_for ps d) ds)" for ds
    by (induction ds) (simp_all add: perfect_among_alternatives[OF assms])
  then show ?thesis by (simp add: alternative_candidates_def perfect_candidates_def)
qed

lemma alternative_candidates_le:
  "\<forall>x \<in> set (alternative_candidates ps d). coverage x \<le> 1"
  by (auto simp: alternative_candidates_def dest: alternatives_coverage_le)

text \<open>
  Claim C5, as amended. For an index of at least two participants, the candidates of
  \<open>perfect_slots\<close> are the alternative candidates of coverage 1 without the key
  \<open>coverage\<close>, in the same order, and the first ten of them are the first entries of
  \<open>best_alternative_slots\<close>, each with coverage exactly 1. So when \<open>perfect_slots\<close> has at
  most ten candidates, every one of them is in \<open>best_alternative_slots\<close> with the same date
  and interval and coverage 1. The list of alternatives is cut to ten entries, and an index
  of one participant has perfect slots and no alternative.
\<close>

theorem perfect_slots_lead_alternatives:
  assumes "2 \<le> length (parsed_schedules self)"
  shows "map without_coverage
           (take (min 10 (length (perfect_slots (find_best_meeting_time self d))))
              (best_alternative_slots (find_best_meeting_time self d)))
         = take 10 (perfect_slots (find_best_meeting_time self d))
     \<and> (\<forall>x \<in> set (take (min 10 (length (perfect_slots (find_best_meeting_time self d))))
                     (best_alternative_slots (find_best_meeting_time self d))).
           coverage x = 1)
     \<and> perfect_slots (find_best_meeting_time self d)
         = map without_coverage
             (filter (\<lambda>x. coverage x = 1) (alternative_candidates (parsed_schedules self) d))
     \<and> (length (perfect_slots (find_best_meeting_time self d)) \<le> 10 \<longrightarrow>
          (\<forall>p \<in> set (perfect_slots (find_best_meeting_time self d)).
             \<exists>a \<in> set (best_alternative_slots (find_best_meeting_time self d)).
               date a = date p \<and> start_time a = start_time p \<and> end_time a = end_time p
               \<and> without_coverage a = p \<and> coverage a = 1))"
proof -
  let ?ps = "parsed_schedules self"
  let ?P = "perfect_slots (find_best_meeting_time self d)"
  let ?B = "best_alternative_slots (find_best_meeting_time self d)"
  let ?A = "filter (\<lambda>x. coverage x = 1) (alternative_candidates ?ps d)"
  have P: "?P = map without_coverage ?A"
    by (simp add: find_best_perfect perfect_candidates_alternatives[OF assms])
  from full_coverage_first[OF alternative_candidates_le[of ?ps d]] obtain others where
    "sort_key (\<lambda>x. - coverage x) (alternative_candidates ?ps d) = ?A @ others" by blast
  then have B: "?B = take 10 (?A @ others)" by (simp add: find_best_alternatives)
  have len: "length ?P = length ?A" by (simp add: P)
  have T: "take (min 10 (length ?P)) ?B = take 10 ?A"
    unfolding B len by (simp add: min_def)
  have 1: "map without_coverage (take (min 10 (length ?P)) ?B) = take 10 ?P"
    unfolding T by (simp add: P take_map)
  have 2: "\<forall>x \<in> set (take (min 10 (length ?P)) ?B). coverage x = 1"
    unfolding T by (auto dest: in_set_takeD)
  have 3: "length ?P \<le> 10 \<longrightarrow>
          (\<forall>p \<in> set ?P. \<exists>a \<in> set ?B.
               date a = date p \<and> start_time a = start_time p \<and> end_time a = end_time p
               \<and> without_coverage a = p \<and> coverage a = 1)"
  proof (intro impI ballI)
    fix p assume l: "length ?P \<le> 10" and p: "p \<in> set ?P"
    from l 1 have "map without_coverage (take (min 10 (length ?P)) ?B) = ?P" by simp
    with p obtain a where a: "a \<in> set (take (min 10 (length ?P)) ?B)" "without_coverage a = p"
      by (metis (no_types, lifting) imageE list.set_map)
    from a(1) 2 have "coverage a = 1" by blast
    moreover from a(1) have "a \<in> set ?B" by (rule in_set_takeD)
    moreover from a(2) have "date a = date p" "start_time a = start_time p"
      "end_time a = end_time p" by (auto simp: without_coverage_def)
    ultimately show "\<exists>a \<in> set ?B.
               date a = date p \<and> start_time a = start_time p \<and> end_time a = end_time p
               \<and> without_coverage a = p \<and> coverage a = 1"
      using a(2) by blast
  qed
  from 1 2 P 3 show ?thesis by blast
qed


theorem perfect_slots_lead_alternatives_counterexample:
  "length (perfect_slots (find_best_meeting_time
      \<lparr>availability_data = None,
       parsed_schedules =
         [(''Alice'', [(''Mon'', [(0, 1), (2, 3), (4, 5), (6, 7), (8, 9), (10, 11), (12, 13),
                                 (14, 15), (16, 17), (18, 19), (20, 21)])]),
          (''Bob'', [(''Mon'', [(0, 23)])])]\<rparr> 1)) = 11
   \<and> (20, 21) \<in> set (map (\<lambda>x. (start_time x, end_time x)) (perfect_slots (find_best_meeting_time
      \<lparr>availability_data = None,
       parsed_schedules =
         [(''Alice'', [(''Mon'', [(0, 1), (2, 3), (4, 5), (6, 7), (8, 9), (10, 11), (12, 13),
                                 (14, 15), (16, 17), (18, 19), (20, 21)])]),
          (''Bob'', [(''Mon'', [(0, 23)])])]\<rparr> 1)))
   \<and> (20, 21) \<notin> set (map (\<lambda>x. (start_time x, end_time x))
        (best_alternative_slots (find_best_meeting_time
      \<lparr>availability_data = None,
       parsed_schedules =
         [(''Alice'', [(''Mon'', [(0, 1), (2, 3), (4, 5), (6, 7), (8, 9), (10, 11), (12, 13),
                                 (14, 15), (16, 17), (18, 19), (20, 21)])]),
          (''Bob'', [(''Mon'', [(0, 23)])])]\<rparr> 1)))
   \<and> perfect_slots (find_best_meeting_time
        \<lparr>availability_data = None,
         parsed_schedules = [(''Alice'', [(''Mon'', [(9, 12)])])]\<rparr> 1)
      = [\<lparr>date = ''Mon'', start_time = 9, end_time = 12,
          members_available = [''Alice''], members_unavailable = []\<rparr>]
   \<and> best_alternative_slots (find_best_meeting_time
        \<lparr>availability_data = None,
         parsed_schedules = [(''Alice'', [(''Mon'', [(9, 12)])])]\<rparr> 1) = []"
  by (simp add: eval_find)

theorem perfect_slots_lead_alternatives_witness:
  "2 \<le> length (parsed_schedules
      \<lparr>availability_data = None,
       parsed_schedules =
         [(''Alice'', [(''Mon'', [(9, 12)]), (''Tue'', [(9, 12)])]),
          (''Bob'', [(''Mon'', []), (''Tue'', [(10, 14)])])]\<rparr>)
   \<and> find_best_meeting_time
      \<lparr>availability_data = None,
       parsed_schedules =
         [(''Alice'', [(''Mon'', [(9, 12)]), (''Tue'', [(9, 12)])]),
          (''Bob'', [(''Mon'', []), (''Tue'', [(10, 14)])])]\<rparr> 1
      = \<lparr>perfect_slots =
           [\<lparr>date = ''Tue'', start_time = 10, end_time = 12,
             members_available = [''Alice'', ''Bob''], members_unavailable = []\<rparr>],
         best_alternative_slots =
           [\<lparr>date = ''Tue'', start_time = 10, end_time = 12,
             members_available = [''Alice'', ''Bob''], members_unavailable = [],
             coverage = 1\<rparr>]\<rparr>
   \<and> map without_coverage
         [\<lparr>date = ''Tue'', start_time = 10, end_time = 12,
           members_available = [''Alice'', ''Bob''], members_unavailable = [],
           coverage = 1\<rparr>]
      = [\<lparr>date = ''Tue'', start_time = 10, end_time = 12,
          members_available = [''Alice'', ''Bob''], members_unavailable = []\<rparr>]"
proof -
  let ?two = "\<lparr>availability_data = None,
       parsed_schedules =
         [(''Alice'', [(''Mon'', [(9, 12)]), (''Tue'', [(9, 12)])]),
          (''Bob'', [(''Mon'', []), (''Tue'', [(10, 14)])])]\<rparr>"
  have a: "2 \<le> length (parsed_schedules ?two)" by simp
  have c: "find_best_meeting_time ?two 1
      = \<lparr>perfect_slots =
           [\<lparr>date = ''Tue'', start_time = 10, end_time = 12,
             members_available = [''Alice'', ''Bob''], members_unavailable = []\<rparr>],
         best_alternative_slots =
           [\<lparr>date = ''Tue'', start_time = 10, end_time = 12,
             members_available = [''Alice'', ''Bob''], members_unavailable = [],
             coverage = 1\<rparr>]\<rparr>"
    by (simp add: eval_find)
  from perfect_slots_lead_alternatives[OF a, of 1]
  have "map without_coverage
           (take (min 10 (length (perfect_slots (find_best_meeting_time ?two 1))))
              (best_alternative_slots (find_best_meeting_time ?two 1)))
         = take 10 (perfect_slots (find_best_meeting_time ?two 1))" by blast
  then have "map without_coverage
         [\<lparr>date = ''Tue'', start_time = 10, end_time = 12,
           members_available = [''Alice'', ''Bob''], members_unavailable = [],
           coverage = 1\<rparr>]
      = [\<lparr>date = ''Tue'', start_time = 10, end_time = 12,
          members_available = [''Alice'', ''Bob''], members_unavailable = []\<rparr>]"
    unfolding c by simp
  with a c show ?thesis by blast
qed

subsection \<open>The state of the scheduler\<close>

lemma find_best_depends:
  "parsed_schedules s1 = parsed_schedules s2 \<Longrightarrow>
     find_best_meeting_time s1 d = find_best_meeting_time s2 d"
  by (simp add: find_best_meeting_time_def)

lemma sort_enumeration:
  fixes e :: "string list"
  assumes "distinct e" "set e = all_dates ps"
  shows "sort e = sorted_list_of_set (all_dates ps)"
proof -
  have "sorted_list_of_set (set e) = sort e"
    using assms(1) by (simp add: sorted_list_of_set_sort_remdups distinct_remdups_id)
  with assms(2) show ?thesis by simp
qed

lemma parse_availability_Some:
  assumes "availability_data s = Some df"
  shows "parse_availability s =
     (case columns df of
        [] \<Rightarrow> Inl IndexError
      | member_column # date_columns \<Rightarrow>
          Inr (foldl (parse_row date_columns) [] (rows df),
               s\<lparr>parsed_schedules := foldl (parse_row date_columns) [] (rows df)\<rparr>))"
  using assms by (simp add: parse_availability_def Let_def split: list.splits)

lemma parse_availability_again:
  assumes "parse_availability s = Inr (schedules, s')"
  shows "parse_availability s' = Inr (schedules, s')"
    and "availability_data s' = availability_data s"
    and "availability_data s \<noteq> None \<Longrightarrow> parsed_schedules s' = schedules"
proof -
  show "parse_availability s' = Inr (schedules, s')"
  proof (cases "availability_data s")
    case None
    with assms show ?thesis by (auto simp: parse_availability_def)
  next
    case (Some df)
    from assms obtain mc dcs where c: "columns df = mc # dcs"
      and e: "schedules = foldl (parse_row dcs) [] (rows df)"
             "s' = s\<lparr>parsed_schedules := schedules\<rparr>"
      unfolding parse_availability_Some[OF Some] by (auto split: list.splits)
    from Some e(2) have "availability_data s' = Some df" by simp
    from parse_availability_Some[OF this] c e show ?thesis by simp
  qed
  show "availability_data s' = availability_data s"
    using assms
    by (auto simp: parse_availability_def Let_def split: option.splits list.splits)
  show "parsed_schedules s' = schedules" if "availability_data s \<noteq> None"
    using assms that
    by (auto simp: parse_availability_def Let_def split: option.splits list.splits)
qed

end
